theory Spec2Isabelle
  imports
    Complex_Main
    "HOL-Library.Char_ord"
    "HOL-Library.List_Lexorder"
    "HOL-Library.Multiset"
    "HOL-Library.Sublist"
begin

section \<open>Relational operators of \<open>src/db/Query.cpp\<close>\<close>

text \<open>
  The file \<open>Query.cpp\<close> defines four operators over tuple stores: \<open>db::projection\<close>,
  \<open>db::filter\<close>, \<open>db::aggregate\<close> and \<open>db::join\<close>. Each reads one or two \<open>DbFile\<close>s
  through a cursor and appends tuples to an output \<open>DbFile\<close>. Exceptions are values of
  the type \<open>error\<close>; a call returns \<open>Inl e\<close> when the C++ throws and \<open>Inr out'\<close> with the
  output store after the call otherwise. When the C++ throws, the tuples already
  appended to the output store are not part of the result of the model.
\<close>

subsection \<open>Errors\<close>

text \<open>
  The C++ throws \<open>std::runtime_error\<close> with a message; the constructors name the
  messages as the specification does. \<open>FieldNotFound\<close> is the failure of
  \<open>TupleDesc::index_of\<close>, \<open>TupleIndexOutOfRange\<close> that of \<open>Tuple::get_field\<close>.
\<close>

datatype error =
    FieldNotFound
  | TupleIndexOutOfRange
  | UnsupportedComparison
  | UnsupportedOperator
  | UnsupportedJoinPredicate
  | NonNumericField

subsection \<open>Double arithmetic\<close>

text \<open>
  The operators use a handful of operations on \<open>double\<close>. The model does not fix
  their rounding: the type of doubles is a type variable \<open>'d\<close>, and the operations are
  the fields of a record that every function using them takes as its first argument.
  \<^item> \<open>d_of_int\<close>: the conversion \<open>int \<rightarrow> double\<close> (\<open>static_cast<double>(arg)\<close>, and the
    implicit conversions in \<open>double globalResult = 0\<close>, \<open>outputValue /= count\<close>);
  \<^item> \<open>d_to_int\<close>: \<open>static_cast<int>(x)\<close>, which C++ defines as truncation towards zero when
    the truncated value is in the range of \<open>int\<close> and leaves undefined otherwise;
  \<^item> \<open>d_add\<close>, \<open>d_div\<close>: \<open>+\<close> and \<open>/\<close>;
  \<^item> \<open>d_less\<close>, \<open>d_le\<close>: \<open><\<close> and \<open><=\<close> (\<open>a > b\<close> is \<open>b < a\<close>, \<open>a >= b\<close> is \<open>b <= a\<close>);
  \<^item> \<open>d_max\<close>, \<open>d_lowest\<close>: \<open>std::numeric_limits<double>::max()\<close> and \<open>lowest()\<close>.
  Equality of doubles is equality of values of \<open>'d\<close> (no NaN, one zero). A C++ \<open>int\<close> is
  an \<open>int\<close> of HOL: the operators do no arithmetic on \<open>int\<close> fields, and their counters
  stay below \<open>2^31\<close> on every store of fewer than \<open>2^31\<close> tuples.
\<close>

record 'd double_ops =
  d_of_int :: "int \<Rightarrow> 'd"
  d_to_int :: "'d \<Rightarrow> int"
  d_add :: "'d \<Rightarrow> 'd \<Rightarrow> 'd"
  d_div :: "'d \<Rightarrow> 'd \<Rightarrow> 'd"
  d_less :: "'d \<Rightarrow> 'd \<Rightarrow> bool"
  d_le :: "'d \<Rightarrow> 'd \<Rightarrow> bool"
  d_max :: "'d"
  d_lowest :: "'d"

text \<open>\<open>std::min(a, b)\<close> is \<open>(b < a) ? b : a\<close> and \<open>std::max(a, b)\<close> is \<open>(a < b) ? b : a\<close>.\<close>

definition std_min :: "'d double_ops \<Rightarrow> 'd \<Rightarrow> 'd \<Rightarrow> 'd" where
  "std_min ops a b = (if d_less ops b a then b else a)"

definition std_max :: "'d double_ops \<Rightarrow> 'd \<Rightarrow> 'd \<Rightarrow> 'd" where
  "std_max ops a b = (if d_less ops a b then b else a)"

text \<open>
  An instance on which the model runs: doubles as rationals with exact arithmetic and
  truncation towards zero. It agrees with binary64 on the values of the examples below.
\<close>

definition exact_ops :: "rat double_ops" where
  "exact_ops =
     \<lparr> d_of_int = of_int,
       d_to_int = (\<lambda>x. if 0 \<le> x then \<lfloor>x\<rfloor> else \<lceil>x\<rceil>),
       d_add = (+),
       d_div = (/),
       d_less = (<),
       d_le = (\<le>),
       d_max = 2 ^ 1024 - 2 ^ 971,
       d_lowest = - (2 ^ 1024 - 2 ^ 971) \<rparr>"

subsection \<open>Field values, tuples, schemas, stores\<close>

text \<open>
  Modelled from the spec: the declarations of \<open>field_t\<close>, \<open>Tuple\<close>, \<open>TupleDesc\<close> and \<open>DbFile\<close>
  are in headers that are not among the sources. \<open>Query.cpp\<close> applies \<open>std::visit\<close> to a
  \<open>field_t\<close>, builds one from an \<open>int\<close> and from a \<open>double\<close> and tests
  \<open>std::is_arithmetic_v\<close> on its alternatives, so \<open>field_t\<close> is a \<open>std::variant\<close>; the
  specification gives its alternatives as integer, floating point and text, in that
  order. \<open>variant_index\<close> is \<open>std::variant::index()\<close>.
\<close>

datatype 'd field_t = FInt int | FDouble 'd | FString string

fun variant_index :: "'d field_t \<Rightarrow> nat" where
  "variant_index (FInt _) = 0"
| "variant_index (FDouble _) = 1"
| "variant_index (FString _) = 2"

type_synonym 'd Tuple = "'d field_t list"

text \<open>
  Modelled from the spec: a schema is an ordered list of fields, of which the operators
  use the names only; \<open>index_of\<close> maps a name to its position and fails when the name is
  absent.
\<close>

type_synonym TupleDesc = "string list"

fun index_of :: "TupleDesc \<Rightarrow> string \<Rightarrow> error + nat" where
  "index_of [] name = Inl FieldNotFound"
| "index_of (n # ns) name =
     (if n = name then Inr 0
      else (case index_of ns name of Inl e \<Rightarrow> Inl e | Inr i \<Rightarrow> Inr (Suc i)))"

text \<open>
  Modelled from the spec: a tuple is a fixed-length sequence of field values;
  \<open>get_field\<close> reads a position, and a position past the end is an error.
\<close>

definition get_field :: "'d Tuple \<Rightarrow> nat \<Rightarrow> error + 'd field_t" where
  "get_field t i = (if i < length t then Inr (t ! i) else Inl TupleIndexOutOfRange)"

text \<open>
  Modelled from the spec: a tuple store has a schema and a sequence of tuples, read
  front to back by the cursor (\<open>begin\<close>, \<open>next\<close>, \<open>end\<close>, \<open>getTuple\<close>); \<open>insertTuple\<close>
  appends one tuple at the end. The input and output stores of a call are distinct.
\<close>

record 'd DbFile =
  getTupleDesc :: TupleDesc
  tuples :: "'d Tuple list"

definition insertTuple :: "'d DbFile \<Rightarrow> 'd Tuple \<Rightarrow> 'd DbFile" where
  "insertTuple out t = out\<lparr>tuples := tuples out @ [t]\<rparr>"

text \<open>
  The stores the operators are specified on: every tuple has as many fields as the
  schema of its store.
\<close>

definition conforms :: "'d DbFile \<Rightarrow> bool" where
  "conforms f = list_all (\<lambda>t. length t = length (getTupleDesc f)) (tuples f)"

subsection \<open>\<open>db::projection\<close>\<close>

text \<open>
  The inner loop over \<open>field_names\<close>: \<open>projectedFields\<close> is the accumulator, each name
  is resolved with \<open>index_of\<close> and the field pushed at the back.
\<close>

fun projection_fields ::
  "TupleDesc \<Rightarrow> 'd Tuple \<Rightarrow> string list \<Rightarrow> 'd field_t list \<Rightarrow> error + 'd field_t list" where
  "projection_fields schema t [] projectedFields = Inr projectedFields"
| "projection_fields schema t (field_name # field_names) projectedFields =
     (case index_of schema field_name of
        Inl e \<Rightarrow> Inl e
      | Inr fieldIndex \<Rightarrow>
          (case get_field t fieldIndex of
             Inl e \<Rightarrow> Inl e
           | Inr f \<Rightarrow> projection_fields schema t field_names (projectedFields @ [f])))"

text \<open>The outer loop over the tuples of \<open>in\<close>.\<close>

fun projection_loop ::
  "TupleDesc \<Rightarrow> 'd Tuple list \<Rightarrow> string list \<Rightarrow> 'd DbFile \<Rightarrow> error + 'd DbFile" where
  "projection_loop schema [] field_names out = Inr out"
| "projection_loop schema (t # ts) field_names out =
     (case projection_fields schema t field_names [] of
        Inl e \<Rightarrow> Inl e
      | Inr projectedFields \<Rightarrow>
          projection_loop schema ts field_names (insertTuple out projectedFields))"

definition projection :: "'d DbFile \<Rightarrow> 'd DbFile \<Rightarrow> string list \<Rightarrow> error + 'd DbFile" where
  "projection inp out field_names =
     projection_loop (getTupleDesc inp) (tuples inp) field_names out"

subsection \<open>\<open>db::filter\<close>\<close>

text \<open>
  The comparison operators of the enum \<open>PredicateOp\<close>. An object of an enum type can
  hold a value that is none of its enumerators; \<open>PredicateOp_invalid\<close> stands for such a
  value, the one the \<open>default:\<close> arm of the \<open>switch\<close> in \<open>db::filter\<close> is for.
\<close>

datatype PredicateOp = EQ | NE | LT | LE | GT | GE | PredicateOp_invalid

text \<open>
  A clause of a filter predicate; the fields are \<open>field_name\<close>, \<open>op\<close> and \<open>value\<close> of
  the struct \<open>FilterPredicate\<close>.
\<close>

record 'd FilterPredicate =
  fp_field_name :: string
  fp_op :: PredicateOp
  fp_value :: "'d field_t"

text \<open>
  The relational operators of \<open>std::variant\<close>: two values holding different
  alternatives are unequal and are ordered by the index of their alternatives; two
  values holding the same alternative are compared as that alternative is. Strings
  are ordered as \<open>std::string\<close> orders them, lexicographically by character code.
  \<open>v == w\<close> is \<open>v = w\<close> and \<open>v != w\<close> is \<open>v \<noteq> w\<close>.
\<close>

fun field_less :: "'d double_ops \<Rightarrow> 'd field_t \<Rightarrow> 'd field_t \<Rightarrow> bool" where
  "field_less ops (FInt a) (FInt b) = (a < b)"
| "field_less ops (FDouble a) (FDouble b) = d_less ops a b"
| "field_less ops (FString a) (FString b) = (a < b)"
| "field_less ops v w = (variant_index v < variant_index w)"

fun field_le :: "'d double_ops \<Rightarrow> 'd field_t \<Rightarrow> 'd field_t \<Rightarrow> bool" where
  "field_le ops (FInt a) (FInt b) = (a \<le> b)"
| "field_le ops (FDouble a) (FDouble b) = d_le ops a b"
| "field_le ops (FString a) (FString b) = (a \<le> b)"
| "field_le ops v w = (variant_index v < variant_index w)"

text \<open>The \<open>switch (p.op)\<close>: the value assigned to \<open>matches\<close>, or the exception.\<close>

fun compare_fields ::
  "'d double_ops \<Rightarrow> PredicateOp \<Rightarrow> 'd field_t \<Rightarrow> 'd field_t \<Rightarrow> error + bool" where
  "compare_fields ops EQ field_value v = Inr (field_value = v)"
| "compare_fields ops NE field_value v = Inr (field_value \<noteq> v)"
| "compare_fields ops LT field_value v = Inr (field_less ops field_value v)"
| "compare_fields ops LE field_value v = Inr (field_le ops field_value v)"
| "compare_fields ops GT field_value v = Inr (field_less ops v field_value)"
| "compare_fields ops GE field_value v = Inr (field_le ops v field_value)"
| "compare_fields ops PredicateOp_invalid field_value v = Inl UnsupportedComparison"

text \<open>One pass of the body of the loop over \<open>pred\<close>, up to the assignment to \<open>matches\<close>.\<close>

definition eval_clause ::
  "'d double_ops \<Rightarrow> TupleDesc \<Rightarrow> 'd Tuple \<Rightarrow> 'd FilterPredicate \<Rightarrow> error + bool" where
  "eval_clause ops schema t p =
     (case index_of schema (fp_field_name p) of
        Inl e \<Rightarrow> Inl e
      | Inr fieldIndex \<Rightarrow>
          (case get_field t fieldIndex of
             Inl e \<Rightarrow> Inl e
           | Inr field_value \<Rightarrow> compare_fields ops (fp_op p) field_value (fp_value p)))"

text \<open>
  The loop over \<open>pred\<close> for one tuple, with \<open>matches\<close> as its state; \<open>if (!matches) break\<close>
  leaves the loop.
\<close>

fun filter_clauses ::
  "'d double_ops \<Rightarrow> TupleDesc \<Rightarrow> 'd Tuple \<Rightarrow> 'd FilterPredicate list \<Rightarrow> bool \<Rightarrow> error + bool" where
  "filter_clauses ops schema t [] matches = Inr matches"
| "filter_clauses ops schema t (p # pred) matches =
     (case eval_clause ops schema t p of
        Inl e \<Rightarrow> Inl e
      | Inr matches' \<Rightarrow>
          if \<not> matches' then Inr matches'
          else filter_clauses ops schema t pred matches')"

text \<open>The loop over the tuples of \<open>in\<close>; \<open>matches\<close> starts as \<open>true\<close> for each tuple.\<close>

fun filter_loop ::
  "'d double_ops \<Rightarrow> TupleDesc \<Rightarrow> 'd Tuple list \<Rightarrow> 'd FilterPredicate list \<Rightarrow> 'd DbFile
     \<Rightarrow> error + 'd DbFile" where
  "filter_loop ops schema [] pred out = Inr out"
| "filter_loop ops schema (t # ts) pred out =
     (case filter_clauses ops schema t pred True of
        Inl e \<Rightarrow> Inl e
      | Inr matches \<Rightarrow>
          filter_loop ops schema ts pred (if matches then insertTuple out t else out))"

definition filter_db ::
  "'d double_ops \<Rightarrow> 'd DbFile \<Rightarrow> 'd DbFile \<Rightarrow> 'd FilterPredicate list \<Rightarrow> error + 'd DbFile" where
  "filter_db ops inp out pred = filter_loop ops (getTupleDesc inp) (tuples inp) pred out"

subsection \<open>\<open>db::aggregate\<close>\<close>

text \<open>
  The enum \<open>AggregateOp\<close> (\<open>SUM\<close>, \<open>AVG\<close>, \<open>MIN\<close>, \<open>MAX\<close>, \<open>COUNT\<close>), with \<open>Agg_invalid\<close> for a
  value that is none of the enumerators, and the struct \<open>Aggregate\<close> with its fields
  \<open>field\<close>, \<open>op\<close> and the optional \<open>group\<close>. The constructors carry a prefix since
  \<open>SUM\<close>, \<open>MIN\<close> and \<open>MAX\<close> are syntax of HOL.
\<close>

datatype AggregateOp = Agg_SUM | Agg_AVG | Agg_MIN | Agg_MAX | Agg_COUNT | Agg_invalid

record Aggregate =
  agg_field :: string
  agg_op :: AggregateOp
  agg_group :: "string option"

text \<open>
  A \<open>std::unordered_map\<close> is an association list with one entry per key.
  \<open>um_find\<close> is \<open>find\<close>, \<open>um_get dflt m k\<close> is the value that \<open>m[k]\<close> refers to (the
  value-initialised \<open>dflt\<close> when \<open>k\<close> is new), \<open>um_assign m k v\<close> is the map after
  \<open>m[k] = v\<close>. The order in which a C++ map is iterated is unspecified; the list keeps
  the keys in the order of their first insertion, and the properties of the grouped
  output below do not depend on it.
\<close>

definition um_find :: "('k \<times> 'v) list \<Rightarrow> 'k \<Rightarrow> 'v option" where
  "um_find m k = map_of m k"

definition um_get :: "'v \<Rightarrow> ('k \<times> 'v) list \<Rightarrow> 'k \<Rightarrow> 'v" where
  "um_get dflt m k = (case um_find m k of None \<Rightarrow> dflt | Some v \<Rightarrow> v)"

fun um_assign :: "('k \<times> 'v) list \<Rightarrow> 'k \<Rightarrow> 'v \<Rightarrow> ('k \<times> 'v) list" where
  "um_assign [] k v = [(k, v)]"
| "um_assign ((k', v') # m) k v =
     (if k' = k then (k', v) # m else (k', v') # um_assign m k v)"

text \<open>The local variables of \<open>db::aggregate\<close> that the loop updates.\<close>

record 'd agg_state =
  groupResults :: "('d field_t \<times> 'd) list"
  groupCounts :: "('d field_t \<times> int) list"
  globalResult :: 'd
  globalCount :: int
  minResult :: 'd
  maxResult :: 'd
  hasValues :: bool

definition agg_init :: "'d double_ops \<Rightarrow> 'd agg_state" where
  "agg_init ops =
     \<lparr> groupResults = [], groupCounts = [],
       globalResult = d_of_int ops 0, globalCount = 0,
       minResult = d_max ops, maxResult = d_lowest ops,
       hasValues = False \<rparr>"

text \<open>The \<open>std::visit\<close>: an arithmetic alternative converted to \<open>double\<close>, or the exception.\<close>

fun numeric_value :: "'d double_ops \<Rightarrow> 'd field_t \<Rightarrow> error + 'd" where
  "numeric_value ops (FInt i) = Inr (d_of_int ops i)"
| "numeric_value ops (FDouble d) = Inr d"
| "numeric_value ops (FString s) = Inl NonNumericField"

text \<open>The \<open>switch (agg.op)\<close> inside the loop, on the state with \<open>hasValues\<close> already set.\<close>

fun aggregate_switch ::
  "'d double_ops \<Rightarrow> AggregateOp \<Rightarrow> bool \<Rightarrow> 'd field_t \<Rightarrow> 'd \<Rightarrow> 'd agg_state
     \<Rightarrow> error + 'd agg_state" where
  "aggregate_switch ops Agg_SUM hasGroup groupKey val s =
     (if hasGroup then
        Inr (s\<lparr>groupResults :=
                 um_assign (groupResults s) groupKey
                   (d_add ops (um_get (d_of_int ops 0) (groupResults s) groupKey) val),
               groupCounts :=
                 um_assign (groupCounts s) groupKey (um_get 0 (groupCounts s) groupKey + 1)\<rparr>)
      else
        Inr (s\<lparr>globalResult := d_add ops (globalResult s) val,
               globalCount := globalCount s + 1\<rparr>))"
| "aggregate_switch ops Agg_AVG hasGroup groupKey val s =
     (if hasGroup then
        Inr (s\<lparr>groupResults :=
                 um_assign (groupResults s) groupKey
                   (d_add ops (um_get (d_of_int ops 0) (groupResults s) groupKey) val),
               groupCounts :=
                 um_assign (groupCounts s) groupKey (um_get 0 (groupCounts s) groupKey + 1)\<rparr>)
      else
        Inr (s\<lparr>globalResult := d_add ops (globalResult s) val,
               globalCount := globalCount s + 1\<rparr>))"
| "aggregate_switch ops Agg_MIN hasGroup groupKey val s =
     (if hasGroup then
        (case um_find (groupResults s) groupKey of
           None \<Rightarrow> Inr (s\<lparr>groupResults := um_assign (groupResults s) groupKey val\<rparr>)
         | Some cur \<Rightarrow>
             if d_less ops val cur
             then Inr (s\<lparr>groupResults := um_assign (groupResults s) groupKey val\<rparr>)
             else Inr s)
      else Inr (s\<lparr>minResult := std_min ops (minResult s) val\<rparr>))"
| "aggregate_switch ops Agg_MAX hasGroup groupKey val s =
     (if hasGroup then
        (case um_find (groupResults s) groupKey of
           None \<Rightarrow> Inr (s\<lparr>groupResults := um_assign (groupResults s) groupKey val\<rparr>)
         | Some cur \<Rightarrow>
             if d_less ops cur val
             then Inr (s\<lparr>groupResults := um_assign (groupResults s) groupKey val\<rparr>)
             else Inr s)
      else Inr (s\<lparr>maxResult := std_max ops (maxResult s) val\<rparr>))"
| "aggregate_switch ops Agg_COUNT hasGroup groupKey val s =
     (if hasGroup then
        Inr (s\<lparr>groupCounts :=
                 um_assign (groupCounts s) groupKey (um_get 0 (groupCounts s) groupKey + 1)\<rparr>)
      else Inr (s\<lparr>globalCount := globalCount s + 1\<rparr>))"
| "aggregate_switch ops Agg_invalid hasGroup groupKey val s = Inl UnsupportedOperator"

text \<open>
  The body of the loop for one tuple: the aggregated field converted to \<open>double\<close>, the
  group key (\<open>field_t{}\<close>, the integer \<open>0\<close>, when there is no group), then the switch.
\<close>

definition aggregate_step ::
  "'d double_ops \<Rightarrow> AggregateOp \<Rightarrow> nat \<Rightarrow> bool \<Rightarrow> nat \<Rightarrow> 'd agg_state \<Rightarrow> 'd Tuple
     \<Rightarrow> error + 'd agg_state" where
  "aggregate_step ops aop fieldIndex hasGroup groupIndex s t =
     (case get_field t fieldIndex of
        Inl e \<Rightarrow> Inl e
      | Inr f \<Rightarrow>
          (case numeric_value ops f of
             Inl e \<Rightarrow> Inl e
           | Inr val \<Rightarrow>
               (case (if hasGroup then get_field t groupIndex else Inr (FInt 0)) of
                  Inl e \<Rightarrow> Inl e
                | Inr groupKey \<Rightarrow>
                    aggregate_switch ops aop hasGroup groupKey val (s\<lparr>hasValues := True\<rparr>))))"

fun aggregate_loop ::
  "'d double_ops \<Rightarrow> AggregateOp \<Rightarrow> nat \<Rightarrow> bool \<Rightarrow> nat \<Rightarrow> 'd agg_state \<Rightarrow> 'd Tuple list
     \<Rightarrow> error + 'd agg_state" where
  "aggregate_loop ops aop fieldIndex hasGroup groupIndex s [] = Inr s"
| "aggregate_loop ops aop fieldIndex hasGroup groupIndex s (t # ts) =
     (case aggregate_step ops aop fieldIndex hasGroup groupIndex s t of
        Inl e \<Rightarrow> Inl e
      | Inr s' \<Rightarrow> aggregate_loop ops aop fieldIndex hasGroup groupIndex s' ts)"

text \<open>
  The loop over \<open>groupResults\<close> that emits one tuple per entry. Reading
  \<open>groupCounts[groupKey]\<close> may insert a zero count; no later read depends on it.
\<close>

fun aggregate_emit ::
  "'d double_ops \<Rightarrow> AggregateOp \<Rightarrow> ('d field_t \<times> int) list \<Rightarrow> ('d field_t \<times> 'd) list
     \<Rightarrow> 'd DbFile \<Rightarrow> 'd DbFile" where
  "aggregate_emit ops aop counts [] out = out"
| "aggregate_emit ops aop counts ((groupKey, result) # rest) out =
     (let outputValue =
            (if aop = Agg_AVG then d_div ops result (d_of_int ops (um_get 0 counts groupKey))
             else if aop = Agg_COUNT then d_of_int ops (um_get 0 counts groupKey)
             else result)
      in aggregate_emit ops aop counts rest
           (insertTuple out [groupKey, FDouble outputValue]))"

text \<open>The \<open>switch (agg.op)\<close> of the non-grouped branch: \<open>finalResult\<close>, or the exception.\<close>

fun aggregate_final :: "'d double_ops \<Rightarrow> AggregateOp \<Rightarrow> 'd agg_state \<Rightarrow> error + 'd field_t" where
  "aggregate_final ops Agg_SUM s = Inr (FInt (d_to_int ops (globalResult s)))"
| "aggregate_final ops Agg_AVG s =
     Inr (FDouble (if globalCount s > 0
                   then d_div ops (globalResult s) (d_of_int ops (globalCount s))
                   else d_of_int ops 0))"
| "aggregate_final ops Agg_MIN s =
     Inr (FInt (if hasValues s then d_to_int ops (minResult s) else 0))"
| "aggregate_final ops Agg_MAX s =
     Inr (FInt (if hasValues s then d_to_int ops (maxResult s) else 0))"
| "aggregate_final ops Agg_COUNT s = Inr (FInt (globalCount s))"
| "aggregate_final ops Agg_invalid s = Inl UnsupportedOperator"

definition aggregate ::
  "'d double_ops \<Rightarrow> 'd DbFile \<Rightarrow> 'd DbFile \<Rightarrow> Aggregate \<Rightarrow> error + 'd DbFile" where
  "aggregate ops inp out agg =
     (case index_of (getTupleDesc inp) (agg_field agg) of
        Inl e \<Rightarrow> Inl e
      | Inr fieldIndex \<Rightarrow>
          (let hasGroup = (agg_group agg \<noteq> None) in
           (case (case agg_group agg of
                    None \<Rightarrow> Inr 0
                  | Some g \<Rightarrow> index_of (getTupleDesc inp) g) of
              Inl e \<Rightarrow> Inl e
            | Inr groupIndex \<Rightarrow>
                (case aggregate_loop ops (agg_op agg) fieldIndex hasGroup groupIndex
                        (agg_init ops) (tuples inp) of
                   Inl e \<Rightarrow> Inl e
                 | Inr s \<Rightarrow>
                     if hasGroup
                     then Inr (aggregate_emit ops (agg_op agg) (groupCounts s)
                                 (groupResults s) out)
                     else (case aggregate_final ops (agg_op agg) s of
                             Inl e \<Rightarrow> Inl e
                           | Inr finalResult \<Rightarrow> Inr (insertTuple out [finalResult]))))))"

subsection \<open>\<open>db::join\<close>\<close>

text \<open>The struct \<open>JoinPredicate\<close> with its fields \<open>left\<close>, \<open>op\<close> and \<open>right\<close>.\<close>

record JoinPredicate =
  jp_left :: string
  jp_op :: PredicateOp
  jp_right :: string

text \<open>
  The build phase of the equality join: \<open>hashTable\<close> is a \<open>std::unordered_multimap\<close>, an
  association list that keeps every entry. \<open>equal_range\<close> gives the tuples stored
  under a key; the order among them is unspecified in C++, here it is the order of
  insertion.
\<close>

fun join_build ::
  "nat \<Rightarrow> 'd Tuple list \<Rightarrow> ('d field_t \<times> 'd Tuple) list
     \<Rightarrow> error + ('d field_t \<times> 'd Tuple) list" where
  "join_build leftFieldIndex [] hashTable = Inr hashTable"
| "join_build leftFieldIndex (tupleLeft # ts) hashTable =
     (case get_field tupleLeft leftFieldIndex of
        Inl e \<Rightarrow> Inl e
      | Inr key \<Rightarrow> join_build leftFieldIndex ts (hashTable @ [(key, tupleLeft)]))"

definition equal_range :: "('k \<times> 'v) list \<Rightarrow> 'k \<Rightarrow> 'v list" where
  "equal_range hashTable key = map snd (filter (\<lambda>kv. fst kv = key) hashTable)"

text \<open>
  \<open>combinedFields\<close> of the equality join: the fields of the left tuple at the positions
  \<open>0 .. size-1\<close>, then those of the right tuple at the positions other than
  \<open>rightFieldIndex\<close>. Every position read is below the size of its tuple.
\<close>

definition combine_eq :: "nat \<Rightarrow> 'd Tuple \<Rightarrow> 'd Tuple \<Rightarrow> 'd Tuple" where
  "combine_eq rightFieldIndex tupleLeft tupleRight =
     map (\<lambda>j. tupleLeft ! j) [0..<length tupleLeft]
     @ map (\<lambda>k. tupleRight ! k) (filter (\<lambda>k. k \<noteq> rightFieldIndex) [0..<length tupleRight])"

text \<open>The loop over the range of matching left tuples for one right tuple.\<close>

fun join_emit_range :: "nat \<Rightarrow> 'd Tuple \<Rightarrow> 'd Tuple list \<Rightarrow> 'd DbFile \<Rightarrow> 'd DbFile" where
  "join_emit_range rightFieldIndex tupleRight [] out = out"
| "join_emit_range rightFieldIndex tupleRight (tupleLeft # matching) out =
     join_emit_range rightFieldIndex tupleRight matching
       (insertTuple out (combine_eq rightFieldIndex tupleLeft tupleRight))"

text \<open>The probe phase: the loop over the tuples of \<open>right\<close>.\<close>

fun join_probe ::
  "nat \<Rightarrow> ('d field_t \<times> 'd Tuple) list \<Rightarrow> 'd Tuple list \<Rightarrow> 'd DbFile \<Rightarrow> error + 'd DbFile" where
  "join_probe rightFieldIndex hashTable [] out = Inr out"
| "join_probe rightFieldIndex hashTable (tupleRight # ts) out =
     (case get_field tupleRight rightFieldIndex of
        Inl e \<Rightarrow> Inl e
      | Inr key \<Rightarrow>
          join_probe rightFieldIndex hashTable ts
            (join_emit_range rightFieldIndex tupleRight (equal_range hashTable key) out))"

text \<open>\<open>combinedFields\<close> of the inequality join: all left fields, then all right fields.\<close>

definition combine_ne :: "'d Tuple \<Rightarrow> 'd Tuple \<Rightarrow> 'd Tuple" where
  "combine_ne tupleLeft tupleRight =
     map (\<lambda>j. tupleLeft ! j) [0..<length tupleLeft]
     @ map (\<lambda>k. tupleRight ! k) [0..<length tupleRight]"

text \<open>The inner loop of the inequality join, over the tuples of \<open>right\<close>.\<close>

fun join_ne_inner ::
  "nat \<Rightarrow> 'd field_t \<Rightarrow> 'd Tuple \<Rightarrow> 'd Tuple list \<Rightarrow> 'd DbFile \<Rightarrow> error + 'd DbFile" where
  "join_ne_inner rightFieldIndex leftKey tupleLeft [] out = Inr out"
| "join_ne_inner rightFieldIndex leftKey tupleLeft (tupleRight # ts) out =
     (case get_field tupleRight rightFieldIndex of
        Inl e \<Rightarrow> Inl e
      | Inr rightKey \<Rightarrow>
          join_ne_inner rightFieldIndex leftKey tupleLeft ts
            (if leftKey \<noteq> rightKey then insertTuple out (combine_ne tupleLeft tupleRight)
             else out))"

text \<open>The outer loop of the inequality join, over the tuples of \<open>left\<close>.\<close>

fun join_ne_outer ::
  "nat \<Rightarrow> nat \<Rightarrow> 'd Tuple list \<Rightarrow> 'd Tuple list \<Rightarrow> 'd DbFile \<Rightarrow> error + 'd DbFile" where
  "join_ne_outer leftFieldIndex rightFieldIndex [] rights out = Inr out"
| "join_ne_outer leftFieldIndex rightFieldIndex (tupleLeft # ts) rights out =
     (case get_field tupleLeft leftFieldIndex of
        Inl e \<Rightarrow> Inl e
      | Inr leftKey \<Rightarrow>
          (case join_ne_inner rightFieldIndex leftKey tupleLeft rights out of
             Inl e \<Rightarrow> Inl e
           | Inr out' \<Rightarrow> join_ne_outer leftFieldIndex rightFieldIndex ts rights out'))"

definition join ::
  "'d DbFile \<Rightarrow> 'd DbFile \<Rightarrow> 'd DbFile \<Rightarrow> JoinPredicate \<Rightarrow> error + 'd DbFile" where
  "join left right out pred =
     (case index_of (getTupleDesc left) (jp_left pred) of
        Inl e \<Rightarrow> Inl e
      | Inr leftFieldIndex \<Rightarrow>
          (case index_of (getTupleDesc right) (jp_right pred) of
             Inl e \<Rightarrow> Inl e
           | Inr rightFieldIndex \<Rightarrow>
               if jp_op pred = EQ then
                 (case join_build leftFieldIndex (tuples left) [] of
                    Inl e \<Rightarrow> Inl e
                  | Inr hashTable \<Rightarrow> join_probe rightFieldIndex hashTable (tuples right) out)
               else if jp_op pred = NE then
                 join_ne_outer leftFieldIndex rightFieldIndex (tuples left) (tuples right) out
               else Inl UnsupportedJoinPredicate))"

subsection \<open>Notions used to state the properties\<close>

text \<open>The position that \<open>index_of\<close> returns for a name of the schema.\<close>

definition position :: "TupleDesc \<Rightarrow> string \<Rightarrow> nat" where
  "position schema name =
     (case index_of schema name of Inl e \<Rightarrow> length schema | Inr i \<Rightarrow> i)"

text \<open>
  The filter as the specification describes it, written without the functions of the
  model of \<open>db::filter\<close>. The position of a name in a schema is the number of fields
  before its first occurrence.
\<close>

definition named_position :: "TupleDesc \<Rightarrow> string \<Rightarrow> nat" where
  "named_position schema name = length (takeWhile (\<lambda>n. n \<noteq> name) schema)"

text \<open>
  The order of field values: integers by value, doubles by the \<open><\<close> and \<open><=\<close> of
  \<open>double\<close>, strings lexicographically, and values of different kinds by the place of
  their kind among integer, floating point, text.
\<close>

definition spec_less :: "'d double_ops \<Rightarrow> 'd field_t \<Rightarrow> 'd field_t \<Rightarrow> bool" where
  "spec_less ops v w =
     (variant_index v < variant_index w
      \<or> (case (v, w) of
            (FInt a, FInt b) \<Rightarrow> a < b
          | (FDouble a, FDouble b) \<Rightarrow> d_less ops a b
          | (FString a, FString b) \<Rightarrow> a < b
          | _ \<Rightarrow> False))"

definition spec_le :: "'d double_ops \<Rightarrow> 'd field_t \<Rightarrow> 'd field_t \<Rightarrow> bool" where
  "spec_le ops v w =
     (variant_index v < variant_index w
      \<or> (case (v, w) of
            (FInt a, FInt b) \<Rightarrow> a \<le> b
          | (FDouble a, FDouble b) \<Rightarrow> d_le ops a b
          | (FString a, FString b) \<Rightarrow> a \<le> b
          | _ \<Rightarrow> False))"

text \<open>
  What each of the six comparison operators \<open>=\<close>, \<open>\<noteq>\<close>, \<open><\<close>, \<open>\<le>\<close>, \<open>>\<close>, \<open>\<ge>\<close> asks of a field
  value \<open>v\<close> and a literal \<open>w\<close>.
\<close>

fun spec_op_holds :: "'d double_ops \<Rightarrow> PredicateOp \<Rightarrow> 'd field_t \<Rightarrow> 'd field_t \<Rightarrow> bool" where
  "spec_op_holds ops EQ v w = (v = w)"
| "spec_op_holds ops NE v w = (v \<noteq> w)"
| "spec_op_holds ops LT v w = spec_less ops v w"
| "spec_op_holds ops LE v w = spec_le ops v w"
| "spec_op_holds ops GT v w = spec_less ops w v"
| "spec_op_holds ops GE v w = spec_le ops w v"
| "spec_op_holds ops PredicateOp_invalid v w = False"

text \<open>
  A clause can be evaluated on a tuple when its field is in the schema, the tuple has
  that position and its operator is one of the six; it matches when, moreover, the
  operator holds between the named field of the tuple and the literal.
\<close>

definition spec_clause_defined :: "TupleDesc \<Rightarrow> 'd Tuple \<Rightarrow> 'd FilterPredicate \<Rightarrow> bool" where
  "spec_clause_defined schema t p =
     (fp_field_name p \<in> set schema
      \<and> named_position schema (fp_field_name p) < length t
      \<and> fp_op p \<noteq> PredicateOp_invalid)"

definition spec_clause_matches ::
  "'d double_ops \<Rightarrow> TupleDesc \<Rightarrow> 'd Tuple \<Rightarrow> 'd FilterPredicate \<Rightarrow> bool" where
  "spec_clause_matches ops schema t p =
     (spec_clause_defined schema t p
      \<and> spec_op_holds ops (fp_op p) (t ! named_position schema (fp_field_name p)) (fp_value p))"

text \<open>
  The clauses of a predicate from the first one that does not match the tuple on. A
  tuple is kept when every clause matches, that is when there is no such clause; it is
  rejected when the first clause that does not match can be evaluated, whatever the
  clauses after it are; otherwise the first clause that does not match raises.
\<close>

definition first_failing ::
  "'d double_ops \<Rightarrow> TupleDesc \<Rightarrow> 'd Tuple \<Rightarrow> 'd FilterPredicate list \<Rightarrow> 'd FilterPredicate list" where
  "first_failing ops schema t pred = dropWhile (spec_clause_matches ops schema t) pred"

definition spec_kept ::
  "'d double_ops \<Rightarrow> TupleDesc \<Rightarrow> 'd FilterPredicate list \<Rightarrow> 'd Tuple \<Rightarrow> bool" where
  "spec_kept ops schema pred t = list_all (spec_clause_matches ops schema t) pred"

definition spec_rejected ::
  "'d double_ops \<Rightarrow> TupleDesc \<Rightarrow> 'd FilterPredicate list \<Rightarrow> 'd Tuple \<Rightarrow> bool" where
  "spec_rejected ops schema pred t =
     (case first_failing ops schema t pred of
        [] \<Rightarrow> False
      | q # qs \<Rightarrow> spec_clause_defined schema t q)"

text \<open>
  The arithmetic alternatives of \<open>field_t\<close> (\<open>std::is_arithmetic_v\<close>), the \<open>double\<close> that the
  aggregate reads from such a field, the doubles read at position \<open>i\<close> of a list of tuples,
  and those of the tuples whose field at position \<open>gi\<close> is the group key \<open>k\<close>.
\<close>

fun is_numeric :: "'d field_t \<Rightarrow> bool" where
  "is_numeric (FInt i) = True"
| "is_numeric (FDouble d) = True"
| "is_numeric (FString s) = False"

fun double_of :: "'d double_ops \<Rightarrow> 'd field_t \<Rightarrow> 'd" where
  "double_of ops (FInt i) = d_of_int ops i"
| "double_of ops (FDouble d) = d"
| "double_of ops (FString s) = d_of_int ops 0"

definition field_doubles :: "'d double_ops \<Rightarrow> nat \<Rightarrow> 'd Tuple list \<Rightarrow> 'd list" where
  "field_doubles ops i ts = map (\<lambda>t. double_of ops (t ! i)) ts"

definition group_doubles ::
  "'d double_ops \<Rightarrow> nat \<Rightarrow> nat \<Rightarrow> 'd field_t \<Rightarrow> 'd Tuple list \<Rightarrow> 'd list" where
  "group_doubles ops i gi k ts = field_doubles ops i (filter (\<lambda>t. t ! gi = k) ts)"

text \<open>The sum accumulated from \<open>0\<close> by \<open>+=\<close> over a list of doubles, in the order of the list.\<close>

definition running_sum :: "'d double_ops \<Rightarrow> 'd list \<Rightarrow> 'd" where
  "running_sum ops vs = foldl (d_add ops) (d_of_int ops 0) vs"

text \<open>
  The rows that the specification asks of the equality join: for each right tuple, one
  row per left tuple with the same join-field value, made of the left fields and of
  the right fields without the one at \<open>ri\<close>.
\<close>

definition eq_join_rows ::
  "nat \<Rightarrow> nat \<Rightarrow> 'd Tuple list \<Rightarrow> 'd Tuple list \<Rightarrow> 'd Tuple list" where
  "eq_join_rows li ri ls rs =
     concat (map (\<lambda>r. map (\<lambda>l. l @ take ri r @ drop (Suc ri) r)
                          (filter (\<lambda>l. l ! li = r ! ri) ls)) rs)"

text \<open>
  The rows that the specification asks of the inequality join: for each left tuple, in
  order, one row per right tuple with another join-field value, made of all left
  fields and all right fields.
\<close>

definition ne_join_rows ::
  "nat \<Rightarrow> nat \<Rightarrow> 'd Tuple list \<Rightarrow> 'd Tuple list \<Rightarrow> 'd Tuple list" where
  "ne_join_rows li ri ls rs =
     concat (map (\<lambda>l. map (\<lambda>r. l @ r) (filter (\<lambda>r. l ! li \<noteq> r ! ri) rs)) ls)"

subsection \<open>Stores of the examples\<close>

text \<open>
  The stores on which the properties below are run, over the exact arithmetic of
  \<open>exact_ops\<close>: an empty store of a given schema, a store of three people, the
  grouped store \<open>{(A,1), (A,2), (B,5)}\<close>, a grouped store with floating-point values, and
  the two sides of a join on \<open>id\<close>.
\<close>

definition empty_store :: "TupleDesc \<Rightarrow> rat DbFile" where
  "empty_store schema = \<lparr>getTupleDesc = schema, tuples = []\<rparr>"

definition people :: "rat DbFile" where
  "people =
     \<lparr>getTupleDesc = [''id'', ''name''],
      tuples = [[FInt 1, FString ''x''], [FInt 5, FString ''y''], [FInt 7, FString ''x'']]\<rparr>"

definition grouped :: "rat DbFile" where
  "grouped =
     \<lparr>getTupleDesc = [''g'', ''v''],
      tuples = [[FString ''A'', FInt 1], [FString ''A'', FInt 2], [FString ''B'', FInt 5]]\<rparr>"

definition measures :: "rat DbFile" where
  "measures =
     \<lparr>getTupleDesc = [''g'', ''v''],
      tuples = [[FString ''A'', FDouble (3 / 2)], [FString ''A'', FDouble (9 / 4)],
                [FString ''B'', FInt 5]]\<rparr>"

definition join_left :: "rat DbFile" where
  "join_left =
     \<lparr>getTupleDesc = [''id'', ''name''],
      tuples = [[FInt 1, FString ''x''], [FInt 2, FString ''y''], [FInt 1, FString ''z'']]\<rparr>"

definition join_right :: "rat DbFile" where
  "join_right =
     \<lparr>getTupleDesc = [''tag'', ''id''],
      tuples = [[FString ''p'', FInt 1], [FString ''q'', FInt 1], [FString ''r'', FInt 3]]\<rparr>"

section \<open>Properties\<close>

subsection \<open>Schemas and tuples\<close>

lemma index_of_absent: "name \<notin> set schema \<Longrightarrow> index_of schema name = Inl FieldNotFound"
  by (induction schema) auto

lemma index_of_present:
  "name \<in> set schema \<Longrightarrow> \<exists>i. index_of schema name = Inr i \<and> i < length schema \<and> schema ! i = name"
  by (induction schema) auto

lemma index_of_Inl: "index_of schema name = Inl e \<Longrightarrow> e = FieldNotFound \<and> name \<notin> set schema"
  by (induction schema arbitrary: e) (auto split: if_splits sum.splits)

lemma index_of_Inr:
  "index_of schema name = Inr i \<Longrightarrow> i < length schema \<and> schema ! i = name \<and> name \<in> set schema"
  by (induction schema arbitrary: i) (auto split: if_splits sum.splits)

subsection \<open>Projection\<close>

lemma index_of_position:
  "name \<in> set schema \<Longrightarrow> index_of schema name = Inr (position schema name) \<and> position schema name < length schema"
  using index_of_present[of name schema] by (auto simp: position_def)

lemma projection_fields_ok:
  "set field_names \<subseteq> set schema \<Longrightarrow> length t = length schema \<Longrightarrow>
   projection_fields schema t field_names acc
     = Inr (acc @ map (\<lambda>n. t ! position schema n) field_names)"
proof (induction field_names arbitrary: acc)
  case Nil
  then show ?case by simp
next
  case (Cons n ns)
  then have "index_of schema n = Inr (position schema n)" "position schema n < length t"
    using index_of_position[of n schema] by auto
  with Cons show ?case by (simp add: get_field_def)
qed

lemma projection_fields_absent:
  "\<not> set field_names \<subseteq> set schema \<Longrightarrow> length t = length schema \<Longrightarrow>
   projection_fields schema t field_names acc = Inl FieldNotFound"
proof (induction field_names arbitrary: acc)
  case Nil
  then show ?case by simp
next
  case (Cons n ns)
  show ?case
  proof (cases "n \<in> set schema")
    case True
    then have "index_of schema n = Inr (position schema n)" "position schema n < length t"
      using index_of_position[of n schema] Cons.prems by auto
    moreover have "\<not> set ns \<subseteq> set schema" using Cons.prems True by auto
    ultimately show ?thesis using Cons by (simp add: get_field_def)
  next
    case False
    then show ?thesis by (simp add: index_of_absent)
  qed
qed

lemma projection_loop_ok:
  "set field_names \<subseteq> set schema \<Longrightarrow> list_all (\<lambda>t. length t = length schema) ts \<Longrightarrow>
   projection_loop schema ts field_names out
     = Inr (out\<lparr>tuples := tuples out @ map (\<lambda>t. map (\<lambda>n. t ! position schema n) field_names) ts\<rparr>)"
proof (induction ts arbitrary: out)
  case Nil
  then show ?case by simp
next
  case (Cons t ts)
  then show ?case by (simp add: projection_fields_ok insertTuple_def)
qed

lemma projection_loop_absent:
  "\<not> set field_names \<subseteq> set schema \<Longrightarrow> list_all (\<lambda>t. length t = length schema) ts \<Longrightarrow> ts \<noteq> [] \<Longrightarrow>
   projection_loop schema ts field_names out = Inl FieldNotFound"
  by (cases ts) (simp_all add: projection_fields_absent)

text \<open>
  Claim C7, as the code has it. On a store whose tuples have the width of its schema:
  when every requested name is in the schema, projection appends one tuple per input
  tuple, in input order, holding the fields at the positions of the requested names in
  the requested order; when some requested name is absent and the store holds at least
  one tuple, it fails with \<open>FieldNotFound\<close>; on an empty store it appends nothing and
  raises nothing, whatever the names, since the names are resolved inside the loop over
  the tuples.
\<close>

theorem projection_rows:
  assumes "conforms inp"
  shows "(set field_names \<subseteq> set (getTupleDesc inp) \<longrightarrow>
           projection inp out field_names
             = Inr (out\<lparr>tuples := tuples out @
                      map (\<lambda>t. map (\<lambda>n. t ! position (getTupleDesc inp) n) field_names) (tuples inp)\<rparr>)
           \<and> (\<forall>n \<in> set field_names.
                 index_of (getTupleDesc inp) n = Inr (position (getTupleDesc inp) n)))
       \<and> (\<not> set field_names \<subseteq> set (getTupleDesc inp) \<and> tuples inp \<noteq> [] \<longrightarrow>
           projection inp out field_names = Inl FieldNotFound)
       \<and> (tuples inp = [] \<longrightarrow> projection inp out field_names = Inr out)"
  using assms
  by (auto simp: projection_def conforms_def projection_loop_ok projection_loop_absent
        index_of_position)

theorem projection_rows_witness:
  "conforms \<lparr>getTupleDesc = [''a'', ''b''],
             tuples = [[FInt 1, FString ''x''], [FInt 2, FString ''y'' :: rat field_t]]\<rparr>
   \<and> projection
       \<lparr>getTupleDesc = [''a'', ''b''],
        tuples = [[FInt 1, FString ''x''], [FInt 2, FString ''y'']]\<rparr>
       \<lparr>getTupleDesc = [''b'', ''a''], tuples = []\<rparr> [''b'', ''a'']
     = Inr \<lparr>getTupleDesc = [''b'', ''a''],
            tuples = [[FString ''x'', FInt 1], [FString ''y'', FInt 2 :: rat field_t]]\<rparr>
   \<and> projection
       \<lparr>getTupleDesc = [''a'', ''b''],
        tuples = [[FInt 1, FString ''x''], [FInt 2, FString ''y'' :: rat field_t]]\<rparr>
       \<lparr>getTupleDesc = [''b'', ''c''], tuples = []\<rparr> [''b'', ''c'']
     = Inl FieldNotFound"
  using projection_rows [of "\<lparr>getTupleDesc = [''a'', ''b''],
             tuples = [[FInt 1, FString ''x''], [FInt 2, FString ''y'' :: rat field_t]]\<rparr>"
           "[''b'', ''a'']" "\<lparr>getTupleDesc = [''b'', ''a''], tuples = []\<rparr>"]
        projection_rows [of "\<lparr>getTupleDesc = [''a'', ''b''],
             tuples = [[FInt 1, FString ''x''], [FInt 2, FString ''y'' :: rat field_t]]\<rparr>"
           "[''b'', ''c'']" "\<lparr>getTupleDesc = [''b'', ''c''], tuples = []\<rparr>"]
  by (simp add: conforms_def position_def)

text \<open>
  Claim C7 as stated fails on an empty store: the requested name \<open>zz\<close> is absent from
  the schema and the call returns normally.
\<close>

theorem projection_empty_counterexample:
  "projection \<lparr>getTupleDesc = [''a''], tuples = ([] :: rat Tuple list)\<rparr>
     \<lparr>getTupleDesc = [''zz''], tuples = []\<rparr> [''zz'']
   = Inr \<lparr>getTupleDesc = [''zz''], tuples = []\<rparr>
   \<and> ''zz'' \<notin> set (getTupleDesc \<lparr>getTupleDesc = [''a''], tuples = ([] :: rat Tuple list)\<rparr>)"
  by (simp add: projection_def)

subsection \<open>Filter\<close>

lemma compare_fields_Inl:
  "compare_fields ops aop v w = Inl e \<Longrightarrow> e = UnsupportedComparison \<and> aop = PredicateOp_invalid"
  by (cases aop) auto

text \<open>The model of the filter and the filter of the specification.\<close>

lemma index_of_named_position:
  "name \<in> set schema \<Longrightarrow> index_of schema name = Inr (named_position schema name)"
  by (induction schema) (auto simp: named_position_def)

lemma field_less_spec: "field_less ops v w = spec_less ops v w"
  by (cases v; cases w) (auto simp: spec_less_def)

lemma field_le_spec: "field_le ops v w = spec_le ops v w"
  by (cases v; cases w) (auto simp: spec_le_def)

lemma compare_fields_spec:
  "aop \<noteq> PredicateOp_invalid \<Longrightarrow>
   compare_fields ops aop v w = Inr (spec_op_holds ops aop v w)"
  by (cases aop) (simp_all add: field_less_spec field_le_spec)

lemma eval_clause_defined:
  "spec_clause_defined schema t p \<Longrightarrow>
   eval_clause ops schema t p = Inr (spec_clause_matches ops schema t p)"
  by (simp add: spec_clause_defined_def spec_clause_matches_def eval_clause_def
        index_of_named_position get_field_def compare_fields_spec)

lemma eval_clause_undefined:
  "\<not> spec_clause_defined schema t p \<Longrightarrow> \<exists>e. eval_clause ops schema t p = Inl e"
proof (cases "fp_field_name p \<in> set schema")
  case False
  then show ?thesis by (simp add: eval_clause_def index_of_absent)
next
  case True
  assume nd: "\<not> spec_clause_defined schema t p"
  show ?thesis
  proof (cases "named_position schema (fp_field_name p) < length t")
    case False
    then show ?thesis using True
      by (simp add: eval_clause_def index_of_named_position get_field_def)
  next
    case inrange: True
    then have "fp_op p = PredicateOp_invalid"
      using nd True by (simp add: spec_clause_defined_def)
    then show ?thesis using True inrange
      by (simp add: eval_clause_def index_of_named_position get_field_def)
  qed
qed

lemma eval_clause_absent:
  "fp_field_name q \<notin> set schema \<Longrightarrow> eval_clause ops schema t q = Inl FieldNotFound"
  by (simp add: eval_clause_def index_of_absent)

lemma not_defined_not_matches:
  "\<not> spec_clause_defined schema t p \<Longrightarrow> \<not> spec_clause_matches ops schema t p"
  by (simp add: spec_clause_matches_def)

lemma filter_clauses_spec:
  "filter_clauses ops schema t pred True =
     (case first_failing ops schema t pred of
        [] \<Rightarrow> Inr True
      | q # qs \<Rightarrow> if spec_clause_defined schema t q then Inr False
                  else eval_clause ops schema t q)"
proof (induction pred)
  case Nil
  then show ?case by (simp add: first_failing_def)
next
  case (Cons p pred)
  show ?case
  proof (cases "spec_clause_defined schema t p")
    case True
    then show ?thesis using Cons eval_clause_defined[OF True, of ops]
      by (simp add: first_failing_def)
  next
    case False
    then obtain e where "eval_clause ops schema t p = Inl e"
      using eval_clause_undefined by blast
    then show ?thesis using False not_defined_not_matches[OF False, of ops]
      by (simp add: first_failing_def)
  qed
qed

lemma first_failing_Nil:
  "first_failing ops schema t pred = [] \<longleftrightarrow> spec_kept ops schema pred t"
  by (simp add: first_failing_def spec_kept_def list_all_iff dropWhile_eq_Nil_conv)

lemma filter_clauses_kept:
  "spec_kept ops schema pred t \<Longrightarrow> filter_clauses ops schema t pred True = Inr True"
  using first_failing_Nil[of ops schema t pred] by (simp add: filter_clauses_spec)

lemma filter_clauses_rejected:
  "spec_rejected ops schema pred t \<Longrightarrow> filter_clauses ops schema t pred True = Inr False"
  by (auto simp: filter_clauses_spec spec_rejected_def split: list.splits)

lemma filter_clauses_raises:
  "\<not> spec_kept ops schema pred t \<Longrightarrow> \<not> spec_rejected ops schema pred t \<Longrightarrow>
   \<exists>e. filter_clauses ops schema t pred True = Inl e"
proof -
  assume nk: "\<not> spec_kept ops schema pred t" and nr: "\<not> spec_rejected ops schema pred t"
  from nk obtain q qs where ff: "first_failing ops schema t pred = q # qs"
    using first_failing_Nil[of ops schema t pred]
    by (cases "first_failing ops schema t pred") auto
  with nr have "\<not> spec_clause_defined schema t q" by (simp add: spec_rejected_def)
  then show ?thesis using ff eval_clause_undefined[of schema t q ops]
    by (simp add: filter_clauses_spec)
qed

lemma kept_not_rejected: "spec_kept ops schema pred t \<Longrightarrow> \<not> spec_rejected ops schema pred t"
  using first_failing_Nil[of ops schema t pred] by (simp add: spec_rejected_def)

lemma filter_loop_no_raise:
  "list_all (\<lambda>t. spec_kept ops schema pred t \<or> spec_rejected ops schema pred t) ts \<Longrightarrow>
   filter_loop ops schema ts pred out
     = Inr (out\<lparr>tuples := tuples out @ filter (spec_kept ops schema pred) ts\<rparr>)"
proof (induction ts arbitrary: out)
  case Nil
  then show ?case by simp
next
  case (Cons t ts)
  show ?case
  proof (cases "spec_kept ops schema pred t")
    case True
    then show ?thesis using Cons
      by (simp add: filter_clauses_kept insertTuple_def)
  next
    case False
    then have "spec_rejected ops schema pred t" using Cons.prems by simp
    then show ?thesis using False Cons
      by (simp add: filter_clauses_rejected)
  qed
qed

lemma filter_loop_returns:
  "filter_loop ops schema ts pred out = Inr out' \<Longrightarrow>
   list_all (\<lambda>t. spec_kept ops schema pred t \<or> spec_rejected ops schema pred t) ts"
proof (induction ts arbitrary: out)
  case Nil
  then show ?case by simp
next
  case (Cons t ts)
  have here: "spec_kept ops schema pred t \<or> spec_rejected ops schema pred t"
  proof (rule ccontr)
    assume "\<not> (spec_kept ops schema pred t \<or> spec_rejected ops schema pred t)"
    then obtain e where "filter_clauses ops schema t pred True = Inl e"
      using filter_clauses_raises[of ops schema pred t] by blast
    then show False using Cons.prems by simp
  qed
  obtain m where "filter_clauses ops schema t pred True = Inr m"
    using here filter_clauses_kept[of ops schema pred t] filter_clauses_rejected[of ops schema pred t]
    by blast
  then have "filter_loop ops schema ts pred (if m then insertTuple out t else out) = Inr out'"
    using Cons.prems by simp
  then have "list_all (\<lambda>t. spec_kept ops schema pred t \<or> spec_rejected ops schema pred t) ts"
    by (rule Cons.IH)
  then show ?case using here by simp
qed

lemma defined_of_conforms:
  "length t = length schema \<Longrightarrow> fp_field_name p \<in> set schema \<Longrightarrow>
   fp_op p \<noteq> PredicateOp_invalid \<Longrightarrow> spec_clause_defined schema t p"
  using index_of_present[of "fp_field_name p" schema]
  by (auto simp: spec_clause_defined_def index_of_named_position)

lemma kept_or_rejected:
  assumes "list_all (spec_clause_defined schema t) pred"
  shows "spec_kept ops schema pred t \<or> spec_rejected ops schema pred t"
proof (cases "first_failing ops schema t pred")
  case Nil
  then show ?thesis by (simp add: first_failing_Nil)
next
  case (Cons q qs)
  then have "q \<in> set pred"
    using set_dropWhileD[of q "spec_clause_matches ops schema t" pred]
    by (simp add: first_failing_def)
  then show ?thesis using assms Cons by (simp add: spec_rejected_def list_all_iff)
qed

lemma filter_loop_no_pred:
  "filter_loop ops schema ts [] out = Inr (out\<lparr>tuples := tuples out @ ts\<rparr>)"
  by (induction ts arbitrary: out) (auto simp: insertTuple_def)

text \<open>
  Claim C8. Whether a tuple is kept is stated with \<open>spec_kept\<close> and \<open>spec_rejected\<close>, which
  do not use the model of the code. If every input tuple is kept or rejected, that is
  if for each tuple either every clause matches or the first clause that does not
  match can be evaluated, whatever follows it, then the filter returns and has
  appended exactly the kept tuples, in input order and unchanged. Conversely a call
  that returns had only such tuples, and what it appended is a subsequence of the
  input. This is the case whenever the input conforms to its schema and every clause
  names a field of the schema with one of the six operators. With no clause every
  tuple is kept.
\<close>

theorem filter_db_keeps:
  "(list_all (\<lambda>t. spec_kept ops (getTupleDesc inp) pred t
                   \<or> spec_rejected ops (getTupleDesc inp) pred t) (tuples inp) \<longrightarrow>
      filter_db ops inp out pred
        = Inr (out\<lparr>tuples := tuples out @
                 filter (spec_kept ops (getTupleDesc inp) pred) (tuples inp)\<rparr>))
   \<and> (filter_db ops inp out pred = Inr out' \<longrightarrow>
        list_all (\<lambda>t. spec_kept ops (getTupleDesc inp) pred t
                     \<or> spec_rejected ops (getTupleDesc inp) pred t) (tuples inp)
        \<and> out' = out\<lparr>tuples := tuples out @
                     filter (spec_kept ops (getTupleDesc inp) pred) (tuples inp)\<rparr>
        \<and> subseq (drop (length (tuples out)) (tuples out')) (tuples inp))
   \<and> (conforms inp
        \<and> list_all (\<lambda>p. fp_field_name p \<in> set (getTupleDesc inp)
                        \<and> fp_op p \<noteq> PredicateOp_invalid) pred \<longrightarrow>
        filter_db ops inp out pred
          = Inr (out\<lparr>tuples := tuples out @
                   filter (spec_kept ops (getTupleDesc inp) pred) (tuples inp)\<rparr>))
   \<and> filter_db ops inp out [] = Inr (out\<lparr>tuples := tuples out @ tuples inp\<rparr>)"
proof -
  let ?ok = "list_all (\<lambda>t. spec_kept ops (getTupleDesc inp) pred t
                   \<or> spec_rejected ops (getTupleDesc inp) pred t) (tuples inp)"
  let ?res = "Inr (out\<lparr>tuples := tuples out @
                 filter (spec_kept ops (getTupleDesc inp) pred) (tuples inp)\<rparr>)"
  have a: "filter_db ops inp out pred = ?res" if ?ok
    using that unfolding filter_db_def by (rule filter_loop_no_raise)
  have b: "?ok \<and> out' = out\<lparr>tuples := tuples out @
                     filter (spec_kept ops (getTupleDesc inp) pred) (tuples inp)\<rparr>
        \<and> subseq (drop (length (tuples out)) (tuples out')) (tuples inp)"
    if r: "filter_db ops inp out pred = Inr out'"
  proof -
    have ok: ?ok using r unfolding filter_db_def by (rule filter_loop_returns)
    then have "out' = out\<lparr>tuples := tuples out @
                     filter (spec_kept ops (getTupleDesc inp) pred) (tuples inp)\<rparr>"
      using a r by simp
    then show ?thesis using ok by simp
  qed
  have c: "filter_db ops inp out pred = ?res"
    if "conforms inp" "list_all (\<lambda>p. fp_field_name p \<in> set (getTupleDesc inp)
                        \<and> fp_op p \<noteq> PredicateOp_invalid) pred"
  proof -
    have "list_all (spec_clause_defined (getTupleDesc inp) t) pred" if "t \<in> set (tuples inp)" for t
      using that \<open>conforms inp\<close> \<open>list_all _ pred\<close>
      by (auto simp: conforms_def list_all_iff intro: defined_of_conforms)
    then have ?ok
      using kept_or_rejected[of "getTupleDesc inp" _ pred ops] by (auto simp: list_all_iff)
    then show ?thesis by (rule a)
  qed
  have d: "filter_db ops inp out [] = Inr (out\<lparr>tuples := tuples out @ tuples inp\<rparr>)"
    by (simp add: filter_db_def filter_loop_no_pred)
  show ?thesis using a b c d by blast
qed

lemmas spec_filter_defs =
  spec_kept_def spec_rejected_def first_failing_def spec_clause_matches_def
  spec_clause_defined_def named_position_def spec_less_def spec_le_def

theorem filter_db_keeps_witness:
  "spec_rejected exact_ops (getTupleDesc people)
     [\<lparr>fp_field_name = ''id'', fp_op = GE, fp_value = FInt 5\<rparr>,
      \<lparr>fp_field_name = ''name'', fp_op = EQ, fp_value = FString ''x''\<rparr>,
      \<lparr>fp_field_name = ''age'', fp_op = EQ, fp_value = FInt 0\<rparr>] [FInt 1, FString ''x'']
   \<and> spec_rejected exact_ops (getTupleDesc people)
     [\<lparr>fp_field_name = ''id'', fp_op = GE, fp_value = FInt 5\<rparr>,
      \<lparr>fp_field_name = ''name'', fp_op = EQ, fp_value = FString ''x''\<rparr>,
      \<lparr>fp_field_name = ''age'', fp_op = EQ, fp_value = FInt 0\<rparr>] [FInt 5, FString ''y'']
   \<and> filter_db exact_ops (people\<lparr>tuples := [[FInt 1, FString ''x''], [FInt 5, FString ''y'']]\<rparr>)
        (empty_store [''id'', ''name''])
        [\<lparr>fp_field_name = ''id'', fp_op = GE, fp_value = FInt 5\<rparr>,
         \<lparr>fp_field_name = ''name'', fp_op = EQ, fp_value = FString ''x''\<rparr>,
         \<lparr>fp_field_name = ''age'', fp_op = EQ, fp_value = FInt 0\<rparr>]
      = Inr (empty_store [''id'', ''name''])
   \<and> conforms people
   \<and> filter_db exact_ops people (empty_store [''id'', ''name''])
        [\<lparr>fp_field_name = ''id'', fp_op = GE, fp_value = FInt 5\<rparr>,
         \<lparr>fp_field_name = ''name'', fp_op = EQ, fp_value = FString ''x''\<rparr>]
      = Inr \<lparr>getTupleDesc = [''id'', ''name''], tuples = [[FInt 7, FString ''x'']]\<rparr>
   \<and> filter_db exact_ops people (empty_store [''id'', ''name''])
        [\<lparr>fp_field_name = ''id'', fp_op = LT, fp_value = FInt 5\<rparr>]
      = Inr \<lparr>getTupleDesc = [''id'', ''name''], tuples = [[FInt 1, FString ''x'']]\<rparr>"
  using
    filter_db_keeps [where ops = exact_ops
      and inp = "people\<lparr>tuples := [[FInt 1, FString ''x''], [FInt 5, FString ''y'']]\<rparr>"
      and out = "empty_store [''id'', ''name'']"
      and pred = "[\<lparr>fp_field_name = ''id'', fp_op = GE, fp_value = FInt 5\<rparr>,
                   \<lparr>fp_field_name = ''name'', fp_op = EQ, fp_value = FString ''x''\<rparr>,
                   \<lparr>fp_field_name = ''age'', fp_op = EQ, fp_value = FInt 0\<rparr>]"
      and out' = "empty_store [''id'', ''name'']"]
    filter_db_keeps [where ops = exact_ops and inp = people
      and out = "empty_store [''id'', ''name'']"
      and pred = "[\<lparr>fp_field_name = ''id'', fp_op = GE, fp_value = FInt 5\<rparr>,
                   \<lparr>fp_field_name = ''name'', fp_op = EQ, fp_value = FString ''x''\<rparr>]"
      and out' = "\<lparr>getTupleDesc = [''id'', ''name''], tuples = [[FInt 7, FString ''x'']]\<rparr>"]
    filter_db_keeps [where ops = exact_ops and inp = people
      and out = "empty_store [''id'', ''name'']"
      and pred = "[\<lparr>fp_field_name = ''id'', fp_op = LT, fp_value = FInt 5\<rparr>]"
      and out' = "\<lparr>getTupleDesc = [''id'', ''name''], tuples = [[FInt 1, FString ''x'']]\<rparr>"]
  by (simp add: people_def empty_store_def conforms_def exact_ops_def spec_filter_defs
        filter_db_def eval_clause_def get_field_def insertTuple_def)

lemma first_failing_head:
  "first_failing ops schema t ps = q # rest \<Longrightarrow> q \<in> set ps \<and> \<not> spec_clause_matches ops schema t q"
  using set_dropWhileD[of q "spec_clause_matches ops schema t" ps]
    hd_dropWhile[of "spec_clause_matches ops schema t" ps]
  by (simp add: first_failing_def)

lemma rejected_append:
  "spec_rejected ops schema ps t \<Longrightarrow> spec_rejected ops schema (ps @ qs) t"
proof -
  assume r: "spec_rejected ops schema ps t"
  then obtain q rest where ff: "first_failing ops schema t ps = q # rest"
    and d: "spec_clause_defined schema t q"
    by (auto simp: spec_rejected_def split: list.splits)
  have "first_failing ops schema t (ps @ qs) = (q # rest) @ qs"
    using first_failing_head[OF ff] ff
      dropWhile_append1[of q ps "spec_clause_matches ops schema t" qs]
    by (simp add: first_failing_def)
  then show ?thesis using d by (simp add: spec_rejected_def)
qed

lemma kept_then_absent:
  assumes "spec_kept ops schema ps t" and "fp_field_name q \<notin> set schema"
  shows "filter_clauses ops schema t (ps @ q # qs) True = Inl FieldNotFound"
proof -
  have nd: "\<not> spec_clause_defined schema t q"
    using assms(2) by (simp add: spec_clause_defined_def)
  have "dropWhile (spec_clause_matches ops schema t) (ps @ q # qs)
        = dropWhile (spec_clause_matches ops schema t) (q # qs)"
    using assms(1) by (intro dropWhile_append2) (simp add: spec_kept_def list_all_iff)
  then have "first_failing ops schema t (ps @ q # qs) = q # qs"
    using not_defined_not_matches[OF nd, of ops] by (simp add: first_failing_def)
  then show ?thesis using nd assms(2)
    by (simp add: filter_clauses_spec eval_clause_absent)
qed

lemma filter_loop_skip_rejected:
  "filter_loop ops schema ts (ps @ qs) out
   = filter_loop ops schema (filter (\<lambda>t. \<not> spec_rejected ops schema ps t) ts) (ps @ qs) out"
proof (induction ts arbitrary: out)
  case Nil
  then show ?case by simp
next
  case (Cons t ts)
  show ?case
  proof (cases "spec_rejected ops schema ps t")
    case True
    then have "filter_clauses ops schema t (ps @ qs) True = Inr False"
      by (intro filter_clauses_rejected rejected_append)
    then show ?thesis using True Cons by simp
  next
    case False
    then show ?thesis using Cons by (simp split: sum.splits)
  qed
qed

lemma filter_loop_all_rejected:
  "list_all (spec_rejected ops schema ps) ts \<Longrightarrow>
   filter_loop ops schema ts (ps @ qs) out = Inr out"
proof (induction ts)
  case Nil
  then show ?case by simp
next
  case (Cons t ts)
  then have "filter_clauses ops schema t (ps @ qs) True = Inr False"
    by (intro filter_clauses_rejected rejected_append) simp
  then show ?case using Cons by simp
qed

lemma filter_loop_absent_name:
  assumes "list_all (\<lambda>t. length t = length schema) ts"
    and "list_all (\<lambda>p. fp_field_name p \<in> set schema \<and> fp_op p \<noteq> PredicateOp_invalid) ps"
    and "fp_field_name q \<notin> set schema"
  shows "filter_loop ops schema ts (ps @ q # qs) out
         = (if list_ex (spec_kept ops schema ps) ts then Inl FieldNotFound else Inr out)"
  using assms(1)
proof (induction ts)
  case Nil
  then show ?case by simp
next
  case (Cons t ts)
  have "list_all (spec_clause_defined schema t) ps"
    using Cons.prems assms(2) by (auto simp: list_all_iff intro: defined_of_conforms)
  then have kr: "spec_kept ops schema ps t \<or> spec_rejected ops schema ps t"
    by (rule kept_or_rejected)
  show ?case
  proof (cases "spec_kept ops schema ps t")
    case True
    then show ?thesis using kept_then_absent[OF True assms(3), of qs] by simp
  next
    case False
    then have "spec_rejected ops schema ps t" using kr by simp
    then have "filter_clauses ops schema t (ps @ q # qs) True = Inr False"
      by (intro filter_clauses_rejected rejected_append)
    then show ?thesis using False Cons by simp
  qed
qed

text \<open>
  Claim C10. For the whole filter: the tuples that the clauses \<open>ps\<close> reject have no
  effect on a filter with the clauses \<open>ps\<close> followed by any clauses \<open>qs\<close>, so when \<open>ps\<close>
  rejects every tuple the filter returns the output store as it was, even if \<open>qs\<close> names
  absent fields. With \<open>ps\<close> naming fields of the schema and a next clause \<open>q\<close> naming an
  absent field, the filter fails with \<open>FieldNotFound\<close> exactly when some tuple matches
  every clause of \<open>ps\<close>, and returns the output store as it was otherwise. On an empty
  store it returns the output store as it was, whatever the predicate.
\<close>

theorem filter_lazy_lookup:
  "filter_db ops inp out (ps @ qs)
     = filter_db ops
         (inp\<lparr>tuples := filter (\<lambda>t. \<not> spec_rejected ops (getTupleDesc inp) ps t) (tuples inp)\<rparr>)
         out (ps @ qs)
   \<and> (list_all (spec_rejected ops (getTupleDesc inp) ps) (tuples inp) \<longrightarrow>
        filter_db ops inp out (ps @ qs) = Inr out)
   \<and> (conforms inp
        \<and> list_all (\<lambda>p. fp_field_name p \<in> set (getTupleDesc inp)
                        \<and> fp_op p \<noteq> PredicateOp_invalid) ps
        \<and> fp_field_name q \<notin> set (getTupleDesc inp) \<longrightarrow>
        filter_db ops inp out (ps @ q # qs)
          = (if list_ex (spec_kept ops (getTupleDesc inp) ps) (tuples inp)
             then Inl FieldNotFound else Inr out))
   \<and> (tuples inp = [] \<longrightarrow> filter_db ops inp out pred = Inr out)"
proof -
  have a: "filter_db ops inp out (ps @ qs)
     = filter_db ops
         (inp\<lparr>tuples := filter (\<lambda>t. \<not> spec_rejected ops (getTupleDesc inp) ps t) (tuples inp)\<rparr>)
         out (ps @ qs)"
    using filter_loop_skip_rejected[of ops "getTupleDesc inp" "tuples inp" ps qs out]
    by (simp add: filter_db_def)
  have b: "filter_db ops inp out (ps @ qs) = Inr out"
    if "list_all (spec_rejected ops (getTupleDesc inp) ps) (tuples inp)"
    using that by (simp add: filter_db_def filter_loop_all_rejected)
  have c: "filter_db ops inp out (ps @ q # qs)
          = (if list_ex (spec_kept ops (getTupleDesc inp) ps) (tuples inp)
             then Inl FieldNotFound else Inr out)"
    if "conforms inp"
      "list_all (\<lambda>p. fp_field_name p \<in> set (getTupleDesc inp)
                        \<and> fp_op p \<noteq> PredicateOp_invalid) ps"
      "fp_field_name q \<notin> set (getTupleDesc inp)"
    using filter_loop_absent_name[OF _ that(2,3), of "tuples inp" ops qs out] that(1)
    by (simp add: filter_db_def conforms_def)
  have d: "filter_db ops inp out pred = Inr out" if "tuples inp = []"
    using that by (simp add: filter_db_def)
  show ?thesis using a b c d by blast
qed

theorem filter_lazy_lookup_witness:
  "list_all (spec_rejected exact_ops (getTupleDesc people)
               [\<lparr>fp_field_name = ''id'', fp_op = GT, fp_value = FInt 9\<rparr>]) (tuples people)
   \<and> filter_db exact_ops people (empty_store [''id'', ''name''])
        ([\<lparr>fp_field_name = ''id'', fp_op = GT, fp_value = FInt 9\<rparr>]
         @ [\<lparr>fp_field_name = ''age'', fp_op = EQ, fp_value = FInt 0\<rparr>])
      = Inr (empty_store [''id'', ''name''])
   \<and> conforms people
   \<and> ''age'' \<notin> set (getTupleDesc people)
   \<and> list_ex (spec_kept exact_ops (getTupleDesc people)
                [\<lparr>fp_field_name = ''id'', fp_op = GE, fp_value = FInt 5\<rparr>]) (tuples people)
   \<and> filter_db exact_ops people (empty_store [''id'', ''name''])
        ([\<lparr>fp_field_name = ''id'', fp_op = GE, fp_value = FInt 5\<rparr>]
         @ \<lparr>fp_field_name = ''age'', fp_op = EQ, fp_value = FInt 0\<rparr> # [])
      = Inl FieldNotFound
   \<and> filter_db exact_ops (empty_store [''id'', ''name'']) (empty_store [''id'', ''name''])
        [\<lparr>fp_field_name = ''age'', fp_op = EQ, fp_value = FInt 0\<rparr>]
      = Inr (empty_store [''id'', ''name''])"
  using
    filter_lazy_lookup [where ops = exact_ops and inp = people
      and out = "empty_store [''id'', ''name'']"
      and ps = "[\<lparr>fp_field_name = ''id'', fp_op = GT, fp_value = FInt 9\<rparr>]"
      and qs = "[\<lparr>fp_field_name = ''age'', fp_op = EQ, fp_value = FInt 0\<rparr>]"
      and q = "\<lparr>fp_field_name = ''age'', fp_op = EQ, fp_value = FInt 0\<rparr>"
      and pred = "[]"]
    filter_lazy_lookup [where ops = exact_ops and inp = people
      and out = "empty_store [''id'', ''name'']"
      and ps = "[\<lparr>fp_field_name = ''id'', fp_op = GE, fp_value = FInt 5\<rparr>]"
      and qs = "[]"
      and q = "\<lparr>fp_field_name = ''age'', fp_op = EQ, fp_value = FInt 0\<rparr>"
      and pred = "[]"]
    filter_lazy_lookup [where ops = exact_ops and inp = "empty_store [''id'', ''name'']"
      and out = "empty_store [''id'', ''name'']"
      and ps = "[]" and qs = "[]"
      and q = "\<lparr>fp_field_name = ''age'', fp_op = EQ, fp_value = FInt 0\<rparr>"
      and pred = "[\<lparr>fp_field_name = ''age'', fp_op = EQ, fp_value = FInt 0\<rparr>]"]
  by (simp add: people_def empty_store_def conforms_def exact_ops_def spec_filter_defs
        filter_db_def eval_clause_def get_field_def insertTuple_def)

lemma field_less_index:
  "variant_index v \<noteq> variant_index w \<Longrightarrow> field_less ops v w = (variant_index v < variant_index w)"
  by (cases v; cases w) auto

lemma field_le_index:
  "variant_index v \<noteq> variant_index w \<Longrightarrow> field_le ops v w = (variant_index v < variant_index w)"
  by (cases v; cases w) auto

lemma neq_of_index: "variant_index v \<noteq> variant_index w \<Longrightarrow> v \<noteq> w"
  by auto

lemma filter_clauses_Inl:
  "filter_clauses ops schema t pred m = Inl UnsupportedComparison \<Longrightarrow>
   \<exists>p \<in> set pred. fp_op p = PredicateOp_invalid"
proof (induction pred arbitrary: m)
  case Nil
  then show ?case by simp
next
  case (Cons p pred)
  show ?case
  proof (cases "eval_clause ops schema t p")
    case (Inl e)
    with Cons.prems have "eval_clause ops schema t p = Inl UnsupportedComparison" by simp
    then have "fp_op p = PredicateOp_invalid"
      by (auto simp: eval_clause_def get_field_def split: sum.splits if_splits
            dest: index_of_Inl compare_fields_Inl)
    then show ?thesis by simp
  next
    case (Inr b)
    with Cons show ?thesis by (auto split: if_splits)
  qed
qed

lemma filter_loop_Inl:
  "filter_loop ops schema ts pred out = Inl UnsupportedComparison \<Longrightarrow>
   \<exists>p \<in> set pred. fp_op p = PredicateOp_invalid"
proof (induction ts arbitrary: out)
  case Nil
  then show ?case by simp
next
  case (Cons t ts)
  then show ?case
    by (auto split: sum.splits dest: filter_clauses_Inl)
qed

text \<open>
  Claim C2, as the code has it. A clause whose literal holds another alternative than
  the field raises nothing: \<open>EQ\<close> does not match, \<open>NE\<close> matches, and the order operators
  compare the indices of the two alternatives. The filter raises
  \<open>UnsupportedComparison\<close> only for a clause whose operator is none of the six.
\<close>

theorem filter_variant_mismatch:
  "(index_of schema (fp_field_name p) = Inr i \<and> i < length t
      \<and> variant_index (t ! i) \<noteq> variant_index (fp_value p) \<longrightarrow>
      eval_clause ops schema t p =
        (case fp_op p of
           EQ \<Rightarrow> Inr False
         | NE \<Rightarrow> Inr True
         | LT \<Rightarrow> Inr (variant_index (t ! i) < variant_index (fp_value p))
         | LE \<Rightarrow> Inr (variant_index (t ! i) < variant_index (fp_value p))
         | GT \<Rightarrow> Inr (variant_index (fp_value p) < variant_index (t ! i))
         | GE \<Rightarrow> Inr (variant_index (fp_value p) < variant_index (t ! i))
         | PredicateOp_invalid \<Rightarrow> Inl UnsupportedComparison))
   \<and> (filter_db ops inp out pred = Inl UnsupportedComparison \<longrightarrow>
        (\<exists>p' \<in> set pred. fp_op p' = PredicateOp_invalid))"
proof -
  have "eval_clause ops schema t p =
        (case fp_op p of
           EQ \<Rightarrow> Inr False
         | NE \<Rightarrow> Inr True
         | LT \<Rightarrow> Inr (variant_index (t ! i) < variant_index (fp_value p))
         | LE \<Rightarrow> Inr (variant_index (t ! i) < variant_index (fp_value p))
         | GT \<Rightarrow> Inr (variant_index (fp_value p) < variant_index (t ! i))
         | GE \<Rightarrow> Inr (variant_index (fp_value p) < variant_index (t ! i))
         | PredicateOp_invalid \<Rightarrow> Inl UnsupportedComparison)"
    if "index_of schema (fp_field_name p) = Inr i" "i < length t"
      "variant_index (t ! i) \<noteq> variant_index (fp_value p)"
    using that field_less_index[of "t ! i" "fp_value p" ops] field_le_index[of "t ! i" "fp_value p" ops]
      field_less_index[of "fp_value p" "t ! i" ops] field_le_index[of "fp_value p" "t ! i" ops]
      neq_of_index[of "t ! i" "fp_value p"]
    by (cases "fp_op p") (simp_all add: eval_clause_def get_field_def)
  then show ?thesis
    using filter_loop_Inl[of ops "getTupleDesc inp" "tuples inp" pred out]
    by (auto simp: filter_db_def)
qed

theorem filter_variant_mismatch_witness:
  "index_of [''id'', ''name''] ''id'' = Inr 0
   \<and> (0::nat) < length [FInt 1, FString ''x'' :: rat field_t]
   \<and> variant_index ([FInt 1, FString ''x'' :: rat field_t] ! 0)
        \<noteq> variant_index (FString ''1'' :: rat field_t)
   \<and> eval_clause exact_ops [''id'', ''name''] [FInt 1, FString ''x'']
        \<lparr>fp_field_name = ''id'', fp_op = LT, fp_value = FString ''1''\<rparr> = Inr True
   \<and> filter_db exact_ops people (empty_store [''id'', ''name''])
        [\<lparr>fp_field_name = ''id'', fp_op = PredicateOp_invalid, fp_value = FInt 1\<rparr>]
      = Inl UnsupportedComparison"
  using
    filter_variant_mismatch [where ops = exact_ops and schema = "[''id'', ''name'']"
      and p = "\<lparr>fp_field_name = ''id'', fp_op = LT, fp_value = FString ''1''\<rparr>"
      and i = 0 and t = "[FInt 1, FString ''x'']"
      and inp = people and out = "empty_store [''id'', ''name'']"
      and pred = "[\<lparr>fp_field_name = ''id'', fp_op = PredicateOp_invalid, fp_value = FInt 1\<rparr>]"]
  by (simp add: filter_db_def people_def empty_store_def eval_clause_def get_field_def)

text \<open>
  Claim C2 as stated fails: an integer field compared with a string literal by \<open>EQ\<close>
  raises nothing, and the tuple is dropped.
\<close>

theorem filter_mismatch_counterexample:
  "filter_db exact_ops \<lparr>getTupleDesc = [''a''], tuples = [[FInt 1]]\<rparr>
     \<lparr>getTupleDesc = [''a''], tuples = []\<rparr>
     [\<lparr>fp_field_name = ''a'', fp_op = EQ, fp_value = FString ''1''\<rparr>]
   = Inr \<lparr>getTupleDesc = [''a''], tuples = []\<rparr>"
  by (simp add: filter_db_def eval_clause_def get_field_def)

subsection \<open>Join\<close>

lemma skip_nth:
  "map (\<lambda>k. xs ! k) (filter (\<lambda>k. k \<noteq> i) [0..<length xs]) = take i xs @ drop (Suc i) xs"
proof (induction xs rule: rev_induct)
  case Nil
  then show ?case by simp
next
  case (snoc x xs)
  have pre: "map (\<lambda>k. (xs @ [x]) ! k) (filter (\<lambda>k. k \<noteq> i) [0..<length xs])
             = map (\<lambda>k. xs ! k) (filter (\<lambda>k. k \<noteq> i) [0..<length xs])"
    by (rule map_cong) (auto simp: nth_append)
  show ?case
  proof (cases "i = length xs")
    case True
    have "filter (\<lambda>k. k \<noteq> i) [0..<length xs] = [0..<length xs]"
      using True by (auto intro: filter_True)
    then show ?thesis using True pre by (simp add: map_nth)
  next
    case False
    then show ?thesis using snoc pre by (cases "i < length xs") auto
  qed
qed

lemma combine_eq_conv:
  "combine_eq ri l r = l @ take ri r @ drop (Suc ri) r"
  by (simp add: combine_eq_def map_nth skip_nth)

lemma combine_ne_conv: "combine_ne l r = l @ r"
  by (simp add: combine_ne_def map_nth)

lemma join_build_ok:
  "list_all (\<lambda>l. li < length l) ls \<Longrightarrow>
   join_build li ls h = Inr (h @ map (\<lambda>l. (l ! li, l)) ls)"
  by (induction ls arbitrary: h) (auto simp: get_field_def)

lemma equal_range_built:
  "equal_range (map (\<lambda>l. (l ! li, l)) ls) key = filter (\<lambda>l. l ! li = key) ls"
  by (induction ls) (auto simp: equal_range_def)

lemma join_emit_range_rows:
  "join_emit_range ri r ls out = out\<lparr>tuples := tuples out @ map (\<lambda>l. combine_eq ri l r) ls\<rparr>"
  by (induction ls arbitrary: out) (auto simp: insertTuple_def)

lemma join_probe_ok:
  "list_all (\<lambda>r. ri < length r) rs \<Longrightarrow>
   join_probe ri h rs out
     = Inr (out\<lparr>tuples := tuples out @
              concat (map (\<lambda>r. map (\<lambda>l. combine_eq ri l r) (equal_range h (r ! ri))) rs)\<rparr>)"
  by (induction rs arbitrary: out) (auto simp: get_field_def join_emit_range_rows)

lemma eq_rows_key_count:
  assumes "list_all (\<lambda>l. li < length l) ls"
  shows "length (filter (\<lambda>row. row ! li = k) (eq_join_rows li ri ls rs))
         = length (filter (\<lambda>l. l ! li = k) ls) * length (filter (\<lambda>r. r ! ri = k) rs)"
proof (induction rs)
  case Nil
  then show ?case by (simp add: eq_join_rows_def)
next
  case (Cons r rs)
  have "filter (\<lambda>row. row ! li = k)
          (map (\<lambda>l. l @ take ri r @ drop (Suc ri) r) (filter (\<lambda>l. l ! li = r ! ri) ls))
        = map (\<lambda>l. l @ take ri r @ drop (Suc ri) r) (filter (\<lambda>l. l ! li = k \<and> l ! li = r ! ri) ls)"
    using assms by (induction ls) (auto simp: nth_append)
  moreover have "length (filter (\<lambda>l. l ! li = k \<and> l ! li = r ! ri) ls)
                 = (if r ! ri = k then length (filter (\<lambda>l. l ! li = k) ls) else 0)"
    by (induction ls) auto
  ultimately show ?case using Cons by (simp add: eq_join_rows_def)
qed

text \<open>
  Claim C5. On stores that conform to their schemas and hold the two join fields, the
  equality join appends, up to their order, exactly the rows of \<open>eq_join_rows\<close>: every
  row is all left fields in order followed by the right fields in order without the
  right join field, one row for every pair of a left and a right tuple with the same
  join-field value. So a key carried by \<open>N\<close> left and \<open>M\<close> right tuples gives \<open>N * M\<close> rows
  (a row shows its key at the position of the left join field).
\<close>

theorem join_eq_rows:
  assumes "conforms left" and "conforms right"
    and "jp_op pred = EQ"
    and "jp_left pred \<in> set (getTupleDesc left)"
    and "jp_right pred \<in> set (getTupleDesc right)"
    and "li = position (getTupleDesc left) (jp_left pred)"
    and "ri = position (getTupleDesc right) (jp_right pred)"
  shows "\<exists>rows. join left right out pred = Inr (out\<lparr>tuples := tuples out @ rows\<rparr>)
           \<and> mset rows = mset (eq_join_rows li ri (tuples left) (tuples right))
           \<and> (\<forall>k. length (filter (\<lambda>row. row ! li = k) rows)
                    = length (filter (\<lambda>l. l ! li = k) (tuples left))
                      * length (filter (\<lambda>r. r ! ri = k) (tuples right)))"
proof -
  have li: "index_of (getTupleDesc left) (jp_left pred) = Inr li" "li < length (getTupleDesc left)"
    using assms index_of_position by auto
  have ri: "index_of (getTupleDesc right) (jp_right pred) = Inr ri" "ri < length (getTupleDesc right)"
    using assms index_of_position by auto
  have ls: "list_all (\<lambda>l. li < length l) (tuples left)"
    using assms(1) li(2) by (auto simp: conforms_def list_all_iff)
  have rs: "list_all (\<lambda>r. ri < length r) (tuples right)"
    using assms(2) ri(2) by (auto simp: conforms_def list_all_iff)
  have build: "join_build li (tuples left) [] = Inr (map (\<lambda>l. (l ! li, l)) (tuples left))"
    using join_build_ok[OF ls, of "[]"] by simp
  have "join left right out pred
        = Inr (out\<lparr>tuples := tuples out @ eq_join_rows li ri (tuples left) (tuples right)\<rparr>)"
    using assms(3) li(1) ri(1) build join_probe_ok[OF rs]
    by (simp add: join_def equal_range_built combine_eq_conv eq_join_rows_def)
  then show ?thesis using eq_rows_key_count[OF ls] by blast
qed

theorem join_eq_rows_witness:
  "conforms join_left \<and> conforms join_right
   \<and> ''id'' \<in> set (getTupleDesc join_left) \<and> ''id'' \<in> set (getTupleDesc join_right)
   \<and> position (getTupleDesc join_left) ''id'' = 0
   \<and> position (getTupleDesc join_right) ''id'' = 1
   \<and> join join_left join_right (empty_store [''id'', ''name'', ''tag''])
        \<lparr>jp_left = ''id'', jp_op = EQ, jp_right = ''id''\<rparr>
      = Inr \<lparr>getTupleDesc = [''id'', ''name'', ''tag''],
             tuples = [[FInt 1, FString ''x'', FString ''p''], [FInt 1, FString ''z'', FString ''p''],
                       [FInt 1, FString ''x'', FString ''q''], [FInt 1, FString ''z'', FString ''q'']]\<rparr>
   \<and> length (filter (\<lambda>l. l ! 0 = FInt 1) (tuples join_left)) = 2
   \<and> length (filter (\<lambda>r. r ! 1 = FInt 1) (tuples join_right)) = 2"
  using
    join_eq_rows [where left = join_left and right = join_right
      and pred = "\<lparr>jp_left = ''id'', jp_op = EQ, jp_right = ''id''\<rparr>"
      and li = 0 and ri = 1 and out = "empty_store [''id'', ''name'', ''tag'']"]
  by (simp add: join_left_def join_right_def empty_store_def conforms_def position_def
        join_def get_field_def equal_range_def combine_eq_def insertTuple_def)

lemma join_ne_inner_ok:
  "list_all (\<lambda>r. ri < length r) rs \<Longrightarrow>
   join_ne_inner ri leftKey l rs out
     = Inr (out\<lparr>tuples := tuples out @ map (\<lambda>r. l @ r) (filter (\<lambda>r. leftKey \<noteq> r ! ri) rs)\<rparr>)"
  by (induction rs arbitrary: out) (auto simp: get_field_def insertTuple_def combine_ne_conv)

lemma join_ne_outer_ok:
  "list_all (\<lambda>l. li < length l) ls \<Longrightarrow> list_all (\<lambda>r. ri < length r) rs \<Longrightarrow>
   join_ne_outer li ri ls rs out = Inr (out\<lparr>tuples := tuples out @ ne_join_rows li ri ls rs\<rparr>)"
  by (induction ls arbitrary: out) (auto simp: get_field_def join_ne_inner_ok ne_join_rows_def)

lemma length_filter_compl:
  "length (filter (\<lambda>x. \<not> P x) xs) = length xs - length (filter P xs)"
  using sum_length_filter_compl[of P xs] by arith

lemma ne_rows_length:
  "length (ne_join_rows li ri ls rs)
   = length ls * length rs - length (filter (\<lambda>(l, r). l ! li = r ! ri) (List.product ls rs))"
proof (induction ls)
  case Nil
  then show ?case by (simp add: ne_join_rows_def)
next
  case (Cons l ls)
  have a: "length (filter (\<lambda>r. l ! li \<noteq> r ! ri) rs) = length rs - length (filter (\<lambda>r. l ! li = r ! ri) rs)"
    using length_filter_compl[of "\<lambda>r. l ! li = r ! ri" rs] by simp
  have b: "length (filter (\<lambda>r. l ! li = r ! ri) rs) \<le> length rs" by simp
  have c: "length (filter (\<lambda>(l, r). l ! li = r ! ri) (List.product ls rs)) \<le> length ls * length rs"
    using length_filter_le[of "\<lambda>(l, r). l ! li = r ! ri" "List.product ls rs"] by simp
  have d: "length (filter (\<lambda>(l, r). l ! li = r ! ri) (map (Pair l) rs))
           = length (filter (\<lambda>r. l ! li = r ! ri) rs)"
    by (simp add: filter_map comp_def)
  show ?case using Cons a b c d by (simp add: ne_join_rows_def)
qed

text \<open>
  Claim C6. On stores that conform to their schemas and hold the two join fields, the
  inequality join appends exactly the rows of \<open>ne_join_rows\<close>, in the order of the
  nested loops: all left fields followed by all right fields, for every pair whose
  join-field values differ. Their number is \<open>L * R\<close> minus the number of pairs with equal
  join-field values.
\<close>

theorem join_ne_rows:
  assumes "conforms left" and "conforms right"
    and "jp_op pred = NE"
    and "jp_left pred \<in> set (getTupleDesc left)"
    and "jp_right pred \<in> set (getTupleDesc right)"
    and "li = position (getTupleDesc left) (jp_left pred)"
    and "ri = position (getTupleDesc right) (jp_right pred)"
  shows "join left right out pred
           = Inr (out\<lparr>tuples := tuples out @ ne_join_rows li ri (tuples left) (tuples right)\<rparr>)
         \<and> length (ne_join_rows li ri (tuples left) (tuples right))
           = length (tuples left) * length (tuples right)
             - length (filter (\<lambda>(l, r). l ! li = r ! ri)
                         (List.product (tuples left) (tuples right)))"
proof -
  have li: "index_of (getTupleDesc left) (jp_left pred) = Inr li" "li < length (getTupleDesc left)"
    using assms index_of_position by auto
  have ri: "index_of (getTupleDesc right) (jp_right pred) = Inr ri" "ri < length (getTupleDesc right)"
    using assms index_of_position by auto
  have ls: "list_all (\<lambda>l. li < length l) (tuples left)"
    using assms(1) li(2) by (auto simp: conforms_def list_all_iff)
  have rs: "list_all (\<lambda>r. ri < length r) (tuples right)"
    using assms(2) ri(2) by (auto simp: conforms_def list_all_iff)
  have "join left right out pred
        = Inr (out\<lparr>tuples := tuples out @ ne_join_rows li ri (tuples left) (tuples right)\<rparr>)"
    using assms(3) li(1) ri(1) join_ne_outer_ok[OF ls rs]
    by (simp add: join_def)
  then show ?thesis using ne_rows_length by blast
qed

theorem join_ne_rows_witness:
  "conforms join_left \<and> conforms join_right
   \<and> ''id'' \<in> set (getTupleDesc join_left) \<and> ''id'' \<in> set (getTupleDesc join_right)
   \<and> position (getTupleDesc join_left) ''id'' = 0
   \<and> position (getTupleDesc join_right) ''id'' = 1
   \<and> join join_left join_right (empty_store [''id'', ''name'', ''tag'', ''id''])
        \<lparr>jp_left = ''id'', jp_op = NE, jp_right = ''id''\<rparr>
      = Inr \<lparr>getTupleDesc = [''id'', ''name'', ''tag'', ''id''],
             tuples = [[FInt 1, FString ''x'', FString ''r'', FInt 3],
                       [FInt 2, FString ''y'', FString ''p'', FInt 1],
                       [FInt 2, FString ''y'', FString ''q'', FInt 1],
                       [FInt 2, FString ''y'', FString ''r'', FInt 3],
                       [FInt 1, FString ''z'', FString ''r'', FInt 3]]\<rparr>
   \<and> length (ne_join_rows 0 1 (tuples join_left) (tuples join_right)) = 3 * 3 - 4"
  using
    join_ne_rows [where left = join_left and right = join_right
      and pred = "\<lparr>jp_left = ''id'', jp_op = NE, jp_right = ''id''\<rparr>"
      and li = 0 and ri = 1 and out = "empty_store [''id'', ''name'', ''tag'', ''id'']"]
  by (simp add: join_left_def join_right_def empty_store_def conforms_def position_def
        join_def get_field_def combine_ne_def insertTuple_def ne_join_rows_def)

text \<open>
  Claim C9, as the code has it. The two join fields are resolved first: if the left or
  the right one is absent from its schema the join fails with \<open>FieldNotFound\<close>, whatever
  the operator; if both are present and the operator is neither \<open>EQ\<close> nor \<open>NE\<close> it fails
  with \<open>UnsupportedJoinPredicate\<close>.
\<close>

theorem join_errors:
  "(jp_left pred \<notin> set (getTupleDesc left) \<or> jp_right pred \<notin> set (getTupleDesc right)
      \<longrightarrow> join left right out pred = Inl FieldNotFound)
   \<and> (jp_left pred \<in> set (getTupleDesc left) \<and> jp_right pred \<in> set (getTupleDesc right)
        \<and> jp_op pred \<noteq> EQ \<and> jp_op pred \<noteq> NE
      \<longrightarrow> join left right out pred = Inl UnsupportedJoinPredicate)"
proof -
  have "join left right out pred = Inl FieldNotFound"
    if "jp_left pred \<notin> set (getTupleDesc left)"
    using that by (simp add: join_def index_of_absent)
  moreover have "join left right out pred = Inl FieldNotFound"
    if "jp_right pred \<notin> set (getTupleDesc right)"
    using that by (auto simp: join_def index_of_absent split: sum.splits dest: index_of_Inl)
  moreover have "join left right out pred = Inl UnsupportedJoinPredicate"
    if "jp_left pred \<in> set (getTupleDesc left)" "jp_right pred \<in> set (getTupleDesc right)"
      "jp_op pred \<noteq> EQ" "jp_op pred \<noteq> NE"
    using that index_of_position[of "jp_left pred" "getTupleDesc left"]
      index_of_position[of "jp_right pred" "getTupleDesc right"]
    by (simp add: join_def)
  ultimately show ?thesis by blast
qed

theorem join_errors_witness:
  "''zz'' \<notin> set (getTupleDesc join_right)
   \<and> join join_left join_right (empty_store []) \<lparr>jp_left = ''id'', jp_op = EQ, jp_right = ''zz''\<rparr>
      = Inl FieldNotFound
   \<and> ''id'' \<in> set (getTupleDesc join_left) \<and> ''id'' \<in> set (getTupleDesc join_right)
   \<and> join join_left join_right (empty_store []) \<lparr>jp_left = ''id'', jp_op = LT, jp_right = ''id''\<rparr>
      = Inl UnsupportedJoinPredicate"
  using
    join_errors [where left = join_left and right = join_right and out = "empty_store []"
      and pred = "\<lparr>jp_left = ''id'', jp_op = EQ, jp_right = ''zz''\<rparr>"]
    join_errors [where left = join_left and right = join_right and out = "empty_store []"
      and pred = "\<lparr>jp_left = ''id'', jp_op = LT, jp_right = ''id''\<rparr>"]
  by (simp add: join_left_def join_right_def)

text \<open>
  Claim C9 as stated fails when the operator is unsupported and a join field is absent:
  the operator is \<open>LT\<close>, the left field \<open>zz\<close> is not in the schema, and the join fails with
  \<open>FieldNotFound\<close>, not with \<open>UnsupportedJoinPredicate\<close>.
\<close>

theorem join_lookup_first_counterexample:
  "join join_left join_right (empty_store []) \<lparr>jp_left = ''zz'', jp_op = LT, jp_right = ''id''\<rparr>
   = Inl FieldNotFound"
  by (simp add: join_def join_left_def)

subsection \<open>Aggregate\<close>

lemma numeric_value_double_of: "is_numeric f \<Longrightarrow> numeric_value ops f = Inr (double_of ops f)"
  by (cases f) auto

lemma aggregate_step_plain:
  "i < length t \<Longrightarrow> is_numeric (t ! i) \<Longrightarrow>
   aggregate_step ops aop i False gi s t
     = aggregate_switch ops aop False (FInt 0) (double_of ops (t ! i)) (s\<lparr>hasValues := True\<rparr>)"
  by (simp add: aggregate_step_def get_field_def numeric_value_double_of)

lemma aggregate_step_grouped:
  "i < length t \<Longrightarrow> gi < length t \<Longrightarrow> is_numeric (t ! i) \<Longrightarrow>
   aggregate_step ops aop i True gi s t
     = aggregate_switch ops aop True (t ! gi) (double_of ops (t ! i)) (s\<lparr>hasValues := True\<rparr>)"
  by (simp add: aggregate_step_def get_field_def numeric_value_double_of)

lemma aggregate_switch_total:
  "aop \<noteq> Agg_invalid \<Longrightarrow> \<exists>s'. aggregate_switch ops aop hg k v s = Inr s'"
  by (cases aop) (auto split: option.splits)

lemma aggregate_loop_total:
  "aop \<noteq> Agg_invalid \<Longrightarrow>
   list_all (\<lambda>t. i < length t \<and> (hg \<longrightarrow> gi < length t) \<and> is_numeric (t ! i)) ts \<Longrightarrow>
   \<exists>s'. aggregate_loop ops aop i hg gi s ts = Inr s'"
proof (induction ts arbitrary: s)
  case Nil
  then show ?case by simp
next
  case (Cons t ts)
  have "\<exists>s1. aggregate_step ops aop i hg gi s t = Inr s1"
  proof (cases hg)
    case True
    then show ?thesis
      using Cons.prems aggregate_switch_total[of aop ops True "t ! gi"]
      by (simp add: aggregate_step_grouped)
  next
    case False
    then show ?thesis
      using Cons.prems aggregate_switch_total[of aop ops False "FInt 0"]
      by (simp add: aggregate_step_plain)
  qed
  then obtain s1 where "aggregate_step ops aop i hg gi s t = Inr s1" ..
  with Cons show ?case by simp
qed

lemma loop_sum_plain:
  "aop = Agg_SUM \<or> aop = Agg_AVG \<Longrightarrow>
   list_all (\<lambda>t. i < length t \<and> is_numeric (t ! i)) ts \<Longrightarrow>
   aggregate_loop ops aop i False gi s ts
     = Inr (s\<lparr>hasValues := hasValues s \<or> ts \<noteq> [],
              globalResult := foldl (d_add ops) (globalResult s) (field_doubles ops i ts),
              globalCount := globalCount s + int (length ts)\<rparr>)"
proof (induction ts arbitrary: s)
  case Nil
  then show ?case by (simp add: field_doubles_def)
next
  case (Cons t ts)
  then show ?case
    by (auto simp: aggregate_step_plain field_doubles_def)
qed

lemma loop_min_plain:
  "list_all (\<lambda>t. i < length t \<and> is_numeric (t ! i)) ts \<Longrightarrow>
   aggregate_loop ops Agg_MIN i False gi s ts
     = Inr (s\<lparr>hasValues := hasValues s \<or> ts \<noteq> [],
              minResult := foldl (std_min ops) (minResult s) (field_doubles ops i ts)\<rparr>)"
proof (induction ts arbitrary: s)
  case Nil
  then show ?case by (simp add: field_doubles_def)
next
  case (Cons t ts)
  then show ?case
    by (auto simp: aggregate_step_plain field_doubles_def)
qed

lemma loop_max_plain:
  "list_all (\<lambda>t. i < length t \<and> is_numeric (t ! i)) ts \<Longrightarrow>
   aggregate_loop ops Agg_MAX i False gi s ts
     = Inr (s\<lparr>hasValues := hasValues s \<or> ts \<noteq> [],
              maxResult := foldl (std_max ops) (maxResult s) (field_doubles ops i ts)\<rparr>)"
proof (induction ts arbitrary: s)
  case Nil
  then show ?case by (simp add: field_doubles_def)
next
  case (Cons t ts)
  then show ?case
    by (auto simp: aggregate_step_plain field_doubles_def)
qed

lemma loop_count_plain:
  "list_all (\<lambda>t. i < length t \<and> is_numeric (t ! i)) ts \<Longrightarrow>
   aggregate_loop ops Agg_COUNT i False gi s ts
     = Inr (s\<lparr>hasValues := hasValues s \<or> ts \<noteq> [],
              globalCount := globalCount s + int (length ts)\<rparr>)"
proof (induction ts arbitrary: s)
  case Nil
  then show ?case by simp
next
  case (Cons t ts)
  then show ?case
    by (auto simp: aggregate_step_plain)
qed

lemma um_find_assign:
  "um_find (um_assign m k v) k' = (if k' = k then Some v else um_find m k')"
  by (induction m) (auto simp: um_find_def)

lemma keys_um_assign:
  "map fst (um_assign m k v) = (if k \<in> set (map fst m) then map fst m else map fst m @ [k])"
proof (induction m)
  case Nil
  then show ?case by simp
next
  case (Cons p m)
  obtain k' v' where p: "p = (k', v')" by (cases p)
  show ?case using Cons p by (cases "k' = k") force+
qed

lemma distinct_um_assign:
  "distinct (map fst m) \<Longrightarrow> distinct (map fst (um_assign m k v))"
  by (simp add: keys_um_assign)

lemma loop_sum_grouped:
  assumes "list_all (\<lambda>t. i < length t \<and> gi < length t \<and> is_numeric (t ! i)) ts"
    and "distinct (map fst (groupResults s))"
  shows "\<exists>s'. aggregate_loop ops Agg_SUM i True gi s ts = Inr s'
           \<and> distinct (map fst (groupResults s'))
           \<and> (\<forall>k. um_find (groupResults s') k =
                 (if k \<in> (\<lambda>t. t ! gi) ` set ts
                  then Some (foldl (d_add ops) (um_get (d_of_int ops 0) (groupResults s) k)
                               (group_doubles ops i gi k ts))
                  else um_find (groupResults s) k))"
  using assms
proof (induction ts arbitrary: s)
  case Nil
  then show ?case by simp
next
  case (Cons t ts)
  let ?v = "double_of ops (t ! i)"
  let ?k = "t ! gi"
  let ?s1 = "s\<lparr>hasValues := True,
               groupResults := um_assign (groupResults s) ?k
                   (d_add ops (um_get (d_of_int ops 0) (groupResults s) ?k) ?v),
               groupCounts := um_assign (groupCounts s) ?k (um_get 0 (groupCounts s) ?k + 1)\<rparr>"
  have step: "aggregate_step ops Agg_SUM i True gi s t = Inr ?s1"
    using Cons.prems(1) by (simp add: aggregate_step_grouped)
  have d1: "distinct (map fst (groupResults ?s1))"
    using Cons.prems(2) by (simp add: distinct_um_assign)
  have rest: "list_all (\<lambda>t. i < length t \<and> gi < length t \<and> is_numeric (t ! i)) ts"
    using Cons.prems(1) by simp
  obtain s' where s': "aggregate_loop ops Agg_SUM i True gi ?s1 ts = Inr s'"
      "distinct (map fst (groupResults s'))"
      "\<And>k. um_find (groupResults s') k =
                 (if k \<in> (\<lambda>t. t ! gi) ` set ts
                  then Some (foldl (d_add ops) (um_get (d_of_int ops 0) (groupResults ?s1) k)
                               (group_doubles ops i gi k ts))
                  else um_find (groupResults ?s1) k)"
    using Cons.IH[OF rest d1] by blast
  have no_key: "filter (\<lambda>t. t ! gi = k) ts = []" if "k \<notin> (\<lambda>t. t ! gi) ` set ts" for k
    using that by (auto simp: filter_empty_conv)
  have "um_find (groupResults s') k =
          (if k \<in> (\<lambda>t. t ! gi) ` set (t # ts)
           then Some (foldl (d_add ops) (um_get (d_of_int ops 0) (groupResults s) k)
                        (group_doubles ops i gi k (t # ts)))
           else um_find (groupResults s) k)" for k
    using s'(3)[of k] no_key[of k]
    by (auto simp: um_find_assign um_get_def group_doubles_def field_doubles_def)
  then show ?case using step s'(1,2) by simp
qed

lemma aggregate_emit_rows:
  "aop \<noteq> Agg_AVG \<Longrightarrow> aop \<noteq> Agg_COUNT \<Longrightarrow>
   aggregate_emit ops aop counts results out
     = out\<lparr>tuples := tuples out @ map (\<lambda>kv. [fst kv, FDouble (snd kv)]) results\<rparr>"
  by (induction results arbitrary: out) (auto simp: insertTuple_def)

lemma distinct_alist_mset:
  assumes "distinct (map fst m)"
    and "\<And>k. um_find m k = (if k \<in> set ks then Some (f k) else None)"
  shows "mset m = mset (map (\<lambda>k. (k, f k)) (remdups ks))"
proof -
  have "set m = (\<lambda>k. (k, f k)) ` set ks"
  proof (rule set_eqI)
    fix kv :: "'a \<times> 'b"
    obtain k v where kv: "kv = (k, v)" by (cases kv)
    have "(k, v) \<in> set m \<longleftrightarrow> map_of m k = Some v"
      using assms(1) by simp
    also have "\<dots> \<longleftrightarrow> k \<in> set ks \<and> v = f k"
      using assms(2)[of k] by (auto simp: um_find_def)
    finally show "kv \<in> set m \<longleftrightarrow> kv \<in> (\<lambda>k. (k, f k)) ` set ks"
      using kv by auto
  qed
  then have sets: "set m = set (map (\<lambda>k. (k, f k)) (remdups ks))" by simp
  have dm: "distinct m" using assms(1) by (simp add: distinct_map)
  have dr: "distinct (map (\<lambda>k. (k, f k)) (remdups ks))"
    by (auto simp: distinct_map inj_on_def)
  show ?thesis using set_eq_iff_mset_eq_distinct[OF dm dr] sets by blast
qed

lemma conforms_nth:
  "conforms inp \<Longrightarrow> n \<in> set (getTupleDesc inp) \<Longrightarrow>
   list_all (\<lambda>t. position (getTupleDesc inp) n < length t) (tuples inp)"
  using index_of_position[of n "getTupleDesc inp"]
  by (auto simp: conforms_def list_all_iff)

lemma aggregate_plain:
  assumes "conforms inp" and "agg_field agg \<in> set (getTupleDesc inp)"
    and "agg_group agg = None"
    and "i = position (getTupleDesc inp) (agg_field agg)"
    and "aggregate_loop ops (agg_op agg) i False 0 (agg_init ops) (tuples inp) = Inr s"
  shows "aggregate ops inp out agg =
           (case aggregate_final ops (agg_op agg) s of
              Inl e \<Rightarrow> Inl e
            | Inr finalResult \<Rightarrow> Inr (out\<lparr>tuples := tuples out @ [[finalResult]]\<rparr>))"
  using assms index_of_position[of "agg_field agg" "getTupleDesc inp"]
  by (simp add: aggregate_def insertTuple_def split: sum.splits)

lemma plain_rows:
  assumes "conforms inp" and "agg_field agg \<in> set (getTupleDesc inp)"
    and "i = position (getTupleDesc inp) (agg_field agg)"
    and "list_all (\<lambda>t. is_numeric (t ! i)) (tuples inp)"
  shows "list_all (\<lambda>t. i < length t \<and> is_numeric (t ! i)) (tuples inp)"
  using assms conforms_nth[of inp "agg_field agg"] by (auto simp: list_all_iff)

text \<open>
  Claim C4. On a store that conforms to its schema, with the aggregated field in the
  schema and arithmetic in every tuple, \<open>vs\<close> being the doubles read from it: without a
  group, \<open>SUM\<close> emits the integer field \<open>static_cast<int>\<close> of the accumulated sum, \<open>MIN\<close> and
  \<open>MAX\<close> the integer field \<open>static_cast<int>\<close> of the running minimum and maximum, and \<open>AVG\<close>
  the floating-point field sum / count, with no conversion to \<open>int\<close>; with a group, \<open>SUM\<close>
  emits for each group key the floating-point field that holds the sum accumulated
  for the group, with no conversion to \<open>int\<close>.
\<close>

theorem aggregate_truncation:
  assumes "conforms inp" and "agg_field agg \<in> set (getTupleDesc inp)"
    and "i = position (getTupleDesc inp) (agg_field agg)"
    and "list_all (\<lambda>t. is_numeric (t ! i)) (tuples inp)"
    and "vs = field_doubles ops i (tuples inp)"
  shows "(agg_group agg = None \<and> agg_op agg = Agg_SUM \<longrightarrow>
            aggregate ops inp out agg
              = Inr (out\<lparr>tuples := tuples out @ [[FInt (d_to_int ops (running_sum ops vs))]]\<rparr>))
       \<and> (agg_group agg = None \<and> agg_op agg = Agg_MIN \<and> tuples inp \<noteq> [] \<longrightarrow>
            aggregate ops inp out agg
              = Inr (out\<lparr>tuples := tuples out @
                       [[FInt (d_to_int ops (foldl (std_min ops) (d_max ops) vs))]]\<rparr>))
       \<and> (agg_group agg = None \<and> agg_op agg = Agg_MAX \<and> tuples inp \<noteq> [] \<longrightarrow>
            aggregate ops inp out agg
              = Inr (out\<lparr>tuples := tuples out @
                       [[FInt (d_to_int ops (foldl (std_max ops) (d_lowest ops) vs))]]\<rparr>))
       \<and> (agg_group agg = None \<and> agg_op agg = Agg_AVG \<and> tuples inp \<noteq> [] \<longrightarrow>
            aggregate ops inp out agg
              = Inr (out\<lparr>tuples := tuples out @
                       [[FDouble (d_div ops (running_sum ops vs)
                                   (d_of_int ops (int (length vs))))]]\<rparr>))
       \<and> (\<forall>g gi. agg_group agg = Some g \<and> g \<in> set (getTupleDesc inp)
              \<and> gi = position (getTupleDesc inp) g \<and> agg_op agg = Agg_SUM \<longrightarrow>
            (\<exists>rows. aggregate ops inp out agg = Inr (out\<lparr>tuples := tuples out @ rows\<rparr>)
               \<and> mset rows =
                   mset (map (\<lambda>k. [k, FDouble (running_sum ops
                                                  (group_doubles ops i gi k (tuples inp)))])
                           (remdups (map (\<lambda>t. t ! gi) (tuples inp))))))"
proof -
  note rows = plain_rows[OF assms(1,2,3,4)]
  have len: "length vs = length (tuples inp)"
    using assms(5) by (simp add: field_doubles_def)
  have sum: "aggregate ops inp out agg
              = Inr (out\<lparr>tuples := tuples out @ [[FInt (d_to_int ops (running_sum ops vs))]]\<rparr>)"
    if "agg_group agg = None" "agg_op agg = Agg_SUM"
    using that assms(5) loop_sum_plain[OF _ rows, of Agg_SUM ops 0 "agg_init ops"]
      aggregate_plain[OF assms(1,2) that(1) assms(3), of ops _ out]
    by (simp add: running_sum_def agg_init_def)
  have minr: "aggregate ops inp out agg
              = Inr (out\<lparr>tuples := tuples out @
                       [[FInt (d_to_int ops (foldl (std_min ops) (d_max ops) vs))]]\<rparr>)"
    if "agg_group agg = None" "agg_op agg = Agg_MIN" "tuples inp \<noteq> []"
    using that assms(5) loop_min_plain[OF rows, of ops 0 "agg_init ops"]
      aggregate_plain[OF assms(1,2) that(1) assms(3), of ops _ out]
    by (simp add: agg_init_def)
  have maxr: "aggregate ops inp out agg
              = Inr (out\<lparr>tuples := tuples out @
                       [[FInt (d_to_int ops (foldl (std_max ops) (d_lowest ops) vs))]]\<rparr>)"
    if "agg_group agg = None" "agg_op agg = Agg_MAX" "tuples inp \<noteq> []"
    using that assms(5) loop_max_plain[OF rows, of ops 0 "agg_init ops"]
      aggregate_plain[OF assms(1,2) that(1) assms(3), of ops _ out]
    by (simp add: agg_init_def)
  have avg: "aggregate ops inp out agg
              = Inr (out\<lparr>tuples := tuples out @
                       [[FDouble (d_div ops (running_sum ops vs)
                                   (d_of_int ops (int (length vs))))]]\<rparr>)"
    if "agg_group agg = None" "agg_op agg = Agg_AVG" "tuples inp \<noteq> []"
    using that assms(5) len loop_sum_plain[OF _ rows, of Agg_AVG ops 0 "agg_init ops"]
      aggregate_plain[OF assms(1,2) that(1) assms(3), of ops _ out]
    by (simp add: running_sum_def agg_init_def)
  have grp: "\<exists>rows. aggregate ops inp out agg = Inr (out\<lparr>tuples := tuples out @ rows\<rparr>)
               \<and> mset rows =
                   mset (map (\<lambda>k. [k, FDouble (running_sum ops
                                                  (group_doubles ops i gi k (tuples inp)))])
                           (remdups (map (\<lambda>t. t ! gi) (tuples inp))))"
    if g: "agg_group agg = Some g" "g \<in> set (getTupleDesc inp)"
      "gi = position (getTupleDesc inp) g" "agg_op agg = Agg_SUM" for g gi
  proof -
    have grows: "list_all (\<lambda>t. i < length t \<and> gi < length t \<and> is_numeric (t ! i)) (tuples inp)"
      using rows conforms_nth[OF assms(1) g(2)] g(3) by (auto simp: list_all_iff)
    obtain s where s: "aggregate_loop ops Agg_SUM i True gi (agg_init ops) (tuples inp) = Inr s"
      "distinct (map fst (groupResults s))"
      "\<And>k. um_find (groupResults s) k =
         (if k \<in> set (map (\<lambda>t. t ! gi) (tuples inp))
          then Some (running_sum ops (group_doubles ops i gi k (tuples inp))) else None)"
      using loop_sum_grouped[OF grows, of "agg_init ops" ops]
      by (auto simp: agg_init_def um_get_def um_find_def running_sum_def)
    have call: "aggregate ops inp out agg
          = Inr (out\<lparr>tuples := tuples out @
                   map (\<lambda>kv. [fst kv, FDouble (snd kv)]) (groupResults s)\<rparr>)"
      using g s(1) assms(2,3) index_of_position[of "agg_field agg" "getTupleDesc inp"]
        index_of_position[of g "getTupleDesc inp"]
      by (simp add: aggregate_def aggregate_emit_rows)
    have "mset (groupResults s)
          = mset (map (\<lambda>k. (k, running_sum ops (group_doubles ops i gi k (tuples inp))))
                    (remdups (map (\<lambda>t. t ! gi) (tuples inp))))"
      using s(2,3) by (rule distinct_alist_mset)
    then have "mset (map (\<lambda>kv. [fst kv, FDouble (snd kv)]) (groupResults s))
          = mset (map (\<lambda>kv. [fst kv, FDouble (snd kv)])
                   (map (\<lambda>k. (k, running_sum ops (group_doubles ops i gi k (tuples inp))))
                    (remdups (map (\<lambda>t. t ! gi) (tuples inp)))))"
      by (simp only: mset_map)
    then show ?thesis using call by (auto simp: comp_def)
  qed
  show ?thesis using sum minr maxr avg grp by blast
qed


theorem aggregate_truncation_witness:
  "conforms measures
   \<and> ''v'' \<in> set (getTupleDesc measures)
   \<and> list_all (\<lambda>t. is_numeric (t ! 1)) (tuples measures)
   \<and> field_doubles exact_ops 1 (tuples measures) = [3 / 2, 9 / 4, 5]
   \<and> aggregate exact_ops measures (empty_store [''sum''])
        \<lparr>agg_field = ''v'', agg_op = Agg_SUM, agg_group = None\<rparr>
      = Inr \<lparr>getTupleDesc = [''sum''], tuples = [[FInt 8]]\<rparr>
   \<and> aggregate exact_ops measures (empty_store [''min''])
        \<lparr>agg_field = ''v'', agg_op = Agg_MIN, agg_group = None\<rparr>
      = Inr \<lparr>getTupleDesc = [''min''], tuples = [[FInt 1]]\<rparr>
   \<and> aggregate exact_ops measures (empty_store [''max''])
        \<lparr>agg_field = ''v'', agg_op = Agg_MAX, agg_group = None\<rparr>
      = Inr \<lparr>getTupleDesc = [''max''], tuples = [[FInt 5]]\<rparr>
   \<and> aggregate exact_ops measures (empty_store [''avg''])
        \<lparr>agg_field = ''v'', agg_op = Agg_AVG, agg_group = None\<rparr>
      = Inr \<lparr>getTupleDesc = [''avg''], tuples = [[FDouble (35 / 12)]]\<rparr>
   \<and> aggregate exact_ops measures (empty_store [''g'', ''sum''])
        \<lparr>agg_field = ''v'', agg_op = Agg_SUM, agg_group = Some ''g''\<rparr>
      = Inr \<lparr>getTupleDesc = [''g'', ''sum''],
             tuples = [[FString ''A'', FDouble (15 / 4)], [FString ''B'', FDouble 5]]\<rparr>"
  using
    aggregate_truncation [where ops = exact_ops and inp = measures and i = 1
      and vs = "[3 / 2, 9 / 4, 5]" and out = "empty_store [''sum'']"
      and agg = "\<lparr>agg_field = ''v'', agg_op = Agg_SUM, agg_group = None\<rparr>"]
    aggregate_truncation [where ops = exact_ops and inp = measures and i = 1
      and vs = "[3 / 2, 9 / 4, 5]" and out = "empty_store [''min'']"
      and agg = "\<lparr>agg_field = ''v'', agg_op = Agg_MIN, agg_group = None\<rparr>"]
    aggregate_truncation [where ops = exact_ops and inp = measures and i = 1
      and vs = "[3 / 2, 9 / 4, 5]" and out = "empty_store [''max'']"
      and agg = "\<lparr>agg_field = ''v'', agg_op = Agg_MAX, agg_group = None\<rparr>"]
    aggregate_truncation [where ops = exact_ops and inp = measures and i = 1
      and vs = "[3 / 2, 9 / 4, 5]" and out = "empty_store [''avg'']"
      and agg = "\<lparr>agg_field = ''v'', agg_op = Agg_AVG, agg_group = None\<rparr>"]
    aggregate_truncation [where ops = exact_ops and inp = measures and i = 1
      and vs = "[3 / 2, 9 / 4, 5]" and out = "empty_store [''g'', ''sum'']"
      and agg = "\<lparr>agg_field = ''v'', agg_op = Agg_SUM, agg_group = Some ''g''\<rparr>"]
  by (simp add: measures_def empty_store_def conforms_def position_def exact_ops_def
        aggregate_def aggregate_step_def get_field_def agg_init_def insertTuple_def
        std_min_def std_max_def um_get_def um_find_def field_doubles_def running_sum_def
        floor_eq_iff)

text \<open>
  Claim C3. With the aggregated field in the schema: a non-grouped call that returns has
  appended exactly one tuple of one field, and it returns whenever the store conforms
  to its schema, the operator is one of the five and the aggregated field is
  arithmetic in every tuple; on an empty store it appends the default of the operator,
  the integer \<open>0\<close> for \<open>SUM\<close> (the conversion of the double \<open>0\<close>), \<open>MIN\<close>, \<open>MAX\<close> and \<open>COUNT\<close> and
  the double \<open>0\<close> for \<open>AVG\<close>; a grouped call on an empty store, with the group field in the
  schema, appends nothing.
\<close>

theorem aggregate_row_count:
  assumes "agg_field agg \<in> set (getTupleDesc inp)"
  shows "(agg_group agg = None \<and> aggregate ops inp out agg = Inr out' \<longrightarrow>
            (\<exists>v. out' = out\<lparr>tuples := tuples out @ [[v]]\<rparr>))
       \<and> (agg_group agg = None \<and> conforms inp \<and> agg_op agg \<noteq> Agg_invalid
            \<and> list_all (\<lambda>t. is_numeric (t ! position (getTupleDesc inp) (agg_field agg)))
                 (tuples inp) \<longrightarrow>
            (\<exists>v. aggregate ops inp out agg = Inr (out\<lparr>tuples := tuples out @ [[v]]\<rparr>)))
       \<and> (agg_group agg = None \<and> tuples inp = [] \<and> d_to_int ops (d_of_int ops 0) = 0 \<longrightarrow>
            aggregate ops inp out agg =
              (case agg_op agg of
                 Agg_SUM \<Rightarrow> Inr (out\<lparr>tuples := tuples out @ [[FInt 0]]\<rparr>)
               | Agg_AVG \<Rightarrow> Inr (out\<lparr>tuples := tuples out @ [[FDouble (d_of_int ops 0)]]\<rparr>)
               | Agg_MIN \<Rightarrow> Inr (out\<lparr>tuples := tuples out @ [[FInt 0]]\<rparr>)
               | Agg_MAX \<Rightarrow> Inr (out\<lparr>tuples := tuples out @ [[FInt 0]]\<rparr>)
               | Agg_COUNT \<Rightarrow> Inr (out\<lparr>tuples := tuples out @ [[FInt 0]]\<rparr>)
               | Agg_invalid \<Rightarrow> Inl UnsupportedOperator))
       \<and> (\<forall>g. agg_group agg = Some g \<and> g \<in> set (getTupleDesc inp) \<and> tuples inp = [] \<longrightarrow>
            aggregate ops inp out agg = Inr out)"
proof -
  let ?i = "position (getTupleDesc inp) (agg_field agg)"
  have idx: "index_of (getTupleDesc inp) (agg_field agg) = Inr ?i"
    using assms index_of_position by simp
  have a: "\<exists>v. out' = out\<lparr>tuples := tuples out @ [[v]]\<rparr>"
    if "agg_group agg = None" "aggregate ops inp out agg = Inr out'"
    using that idx by (auto simp: aggregate_def insertTuple_def split: sum.splits)
  have b: "\<exists>v. aggregate ops inp out agg = Inr (out\<lparr>tuples := tuples out @ [[v]]\<rparr>)"
    if h: "agg_group agg = None" "conforms inp" "agg_op agg \<noteq> Agg_invalid"
      "list_all (\<lambda>t. is_numeric (t ! ?i)) (tuples inp)"
  proof -
    have "list_all (\<lambda>t. ?i < length t \<and> (False \<longrightarrow> 0 < length t) \<and> is_numeric (t ! ?i))
            (tuples inp)"
      using plain_rows[OF h(2) assms refl h(4)] by simp
    then obtain s where s: "aggregate_loop ops (agg_op agg) ?i False 0 (agg_init ops) (tuples inp) = Inr s"
      using aggregate_loop_total[OF h(3), of ?i False 0 "tuples inp" ops "agg_init ops"] by blast
    obtain v where "aggregate_final ops (agg_op agg) s = Inr v"
      using h(3) by (cases "agg_op agg") auto
    then have "aggregate ops inp out agg = Inr (out\<lparr>tuples := tuples out @ [[v]]\<rparr>)"
      using aggregate_plain[OF h(2) assms h(1) refl s, of out] by simp
    then show ?thesis by blast
  qed
  have c: "aggregate ops inp out agg =
              (case agg_op agg of
                 Agg_SUM \<Rightarrow> Inr (out\<lparr>tuples := tuples out @ [[FInt 0]]\<rparr>)
               | Agg_AVG \<Rightarrow> Inr (out\<lparr>tuples := tuples out @ [[FDouble (d_of_int ops 0)]]\<rparr>)
               | Agg_MIN \<Rightarrow> Inr (out\<lparr>tuples := tuples out @ [[FInt 0]]\<rparr>)
               | Agg_MAX \<Rightarrow> Inr (out\<lparr>tuples := tuples out @ [[FInt 0]]\<rparr>)
               | Agg_COUNT \<Rightarrow> Inr (out\<lparr>tuples := tuples out @ [[FInt 0]]\<rparr>)
               | Agg_invalid \<Rightarrow> Inl UnsupportedOperator)"
    if "agg_group agg = None" "tuples inp = []" "d_to_int ops (d_of_int ops 0) = 0"
    using that idx
    by (cases "agg_op agg") (simp_all add: aggregate_def agg_init_def insertTuple_def)
  have d: "aggregate ops inp out agg = Inr out"
    if "agg_group agg = Some g" "g \<in> set (getTupleDesc inp)" "tuples inp = []" for g
    using that idx index_of_position[of g "getTupleDesc inp"]
    by (simp add: aggregate_def agg_init_def)
  show ?thesis using a b c d by blast
qed

theorem aggregate_row_count_witness:
  "''v'' \<in> set [''g'', ''v'']
   \<and> conforms grouped
   \<and> list_all (\<lambda>t. is_numeric (t ! position [''g'', ''v''] ''v'')) (tuples grouped)
   \<and> aggregate exact_ops grouped (empty_store [''max''])
        \<lparr>agg_field = ''v'', agg_op = Agg_MAX, agg_group = None\<rparr>
      = Inr \<lparr>getTupleDesc = [''max''], tuples = [[FInt 5]]\<rparr>
   \<and> d_to_int exact_ops (d_of_int exact_ops 0) = 0
   \<and> aggregate exact_ops (empty_store [''g'', ''v'']) (empty_store [''avg''])
        \<lparr>agg_field = ''v'', agg_op = Agg_AVG, agg_group = None\<rparr>
      = Inr \<lparr>getTupleDesc = [''avg''], tuples = [[FDouble 0]]\<rparr>
   \<and> aggregate exact_ops (empty_store [''g'', ''v'']) (empty_store [''g'', ''sum''])
        \<lparr>agg_field = ''v'', agg_op = Agg_SUM, agg_group = Some ''g''\<rparr>
      = Inr (empty_store [''g'', ''sum''])"
  using
    aggregate_row_count [where ops = exact_ops and inp = grouped
      and out = "empty_store [''max'']"
      and agg = "\<lparr>agg_field = ''v'', agg_op = Agg_MAX, agg_group = None\<rparr>"
      and out' = "\<lparr>getTupleDesc = [''max''], tuples = [[FInt 5]]\<rparr>"]
    aggregate_row_count [where ops = exact_ops and inp = "empty_store [''g'', ''v'']"
      and out = "empty_store [''avg'']"
      and agg = "\<lparr>agg_field = ''v'', agg_op = Agg_AVG, agg_group = None\<rparr>"]
    aggregate_row_count [where ops = exact_ops and inp = "empty_store [''g'', ''v'']"
      and out = "empty_store [''g'', ''sum'']"
      and agg = "\<lparr>agg_field = ''v'', agg_op = Agg_SUM, agg_group = Some ''g''\<rparr>"]
  by (simp add: grouped_def empty_store_def conforms_def position_def exact_ops_def
        aggregate_def aggregate_step_def get_field_def agg_init_def insertTuple_def std_max_def)

text \<open>
  Claim C1 on the store \<open>{(A,1), (A,2), (B,5)}\<close> grouped by its first field. \<open>COUNT\<close> updates
  \<open>groupCounts\<close> only, and the output loop runs over \<open>groupResults\<close>, which stays empty:
  no row is emitted for the two groups. \<open>SUM\<close> on the same store emits the rows \<open>(A,3)\<close>
  and \<open>(B,5)\<close>.
\<close>

theorem aggregate_grouped_count_no_rows:
  "aggregate exact_ops grouped (empty_store [''g'', ''count''])
     \<lparr>agg_field = ''v'', agg_op = Agg_COUNT, agg_group = Some ''g''\<rparr>
   = Inr \<lparr>getTupleDesc = [''g'', ''count''], tuples = []\<rparr>
   \<and> aggregate exact_ops grouped (empty_store [''g'', ''sum''])
        \<lparr>agg_field = ''v'', agg_op = Agg_SUM, agg_group = Some ''g''\<rparr>
      = Inr \<lparr>getTupleDesc = [''g'', ''sum''],
             tuples = [[FString ''A'', FDouble 3], [FString ''B'', FDouble 5]]\<rparr>"
  by (simp add: grouped_def empty_store_def exact_ops_def aggregate_def aggregate_step_def
        get_field_def agg_init_def insertTuple_def um_get_def um_find_def)

end
